theory Spec2Isabelle
  imports Main
begin

section \<open>Data\<close>

text \<open>
  A loaded replay, as far as \<open>Circleguard.run\<close> reads it: \<open>run\<close> only looks at
  \<open>replay.map_id\<close>; \<open>replay_id\<close> tells two replays of one map apart.
\<close>

record replay =
  replay_id :: nat
  map_id :: nat

text \<open>What \<open>library.lookup_by_id\<close> returns: the beatmap of a map identifier.\<close>

datatype beatmap = Beatmap nat

text \<open>
  The results handed to the consumer. \<open>run\<close> never inspects them: it passes on what
  \<open>comparer.compare()\<close> and \<open>investigator.investigate()\<close> produce.
\<close>

datatype result = ComparisonResult replay replay | RelaxResult replay

text \<open>
  Exceptions as values: the loader's failures, the failure of the beatmap library to
  resolve a map identifier, and Python's \<open>AttributeError\<close>.
\<close>

datatype error = ReplayUnavailable nat | Ratelimit | UnknownMap nat | AttributeError

text \<open>
  \<open>c.detect\<close>: \<open>Detect.STEAL in d\<close> is the field \<open>steal\<close>, \<open>Detect.RELAX in d\<close> the
  field \<open>relax\<close>; the thresholds are only passed on to the detectors.
\<close>

record detect =
  steal :: bool
  relax :: bool
  steal_thresh :: int
  ur_thresh :: int

text \<open>
  A Check before it is loaded: the references of its primary replay set, of its
  optional second set, and its detect configuration.
\<close>

record check =
  replays :: "nat list"
  replays2 :: "nat list option"
  detect :: detect

text \<open>
  What \<open>c.load(self.loader)\<close> leaves in the Check: the replays that
  \<open>c.all_replays()\<close> and \<open>c.all_replays2()\<close> return afterwards.
\<close>

record loaded =
  all_replays :: "replay list"
  all_replays2 :: "replay list option"

text \<open>
  The collaborators of \<open>run\<close>, whose code is not part of the two source files, as
  parameters: \<open>load\<close> is \<open>c.load(self.loader)\<close>, \<open>compare th rs rs2\<close> the items of
  \<open>Comparer(th, rs, replays2=rs2).compare()\<close>, \<open>lookup_by_id\<close> is
  \<open>library.lookup_by_id(map_id, download=True, save=True)\<close>, and
  \<open>investigate r bm th\<close> the items of \<open>Investigator(r, bm, th).investigate()\<close>.
  The loader and the library can fail; the items of a detector are handed over one
  at a time, as \<open>yield from\<close> pulls them.
\<close>

record collab =
  load :: "check \<Rightarrow> error + loaded"
  compare :: "int \<Rightarrow> replay list \<Rightarrow> replay list option \<Rightarrow> result list"
  lookup_by_id :: "nat \<Rightarrow> error + beatmap"
  investigate :: "replay \<Rightarrow> beatmap \<Rightarrow> int \<Rightarrow> result list"

section \<open>The Circleguard instance\<close>

record cacher =
  should_cache :: bool
  db_path :: string

datatype library = Library string

record circleguard =
  cache :: bool
  cacher :: "cacher option"
  library :: "library option"

text \<open>
  \<open>Circleguard.__init__(key, db_path, slider_dir, cache)\<close>: the cacher exists only
  when a database path is given; \<open>self.library\<close> is a connection only when a slider
  directory is given, and \<open>None\<close> when a temporary directory is used.
\<close>

definition init :: "string \<Rightarrow> string option \<Rightarrow> string option \<Rightarrow> bool \<Rightarrow> circleguard" where
  "init key dbp slider_dir cache_arg =
     \<lparr> cache = cache_arg,
       cacher = (case dbp of None \<Rightarrow> None
                 | Some p \<Rightarrow> Some \<lparr> should_cache = cache_arg, db_path = p \<rparr>),
       library = (case slider_dir of None \<Rightarrow> None | Some d \<Rightarrow> Some (Library d)) \<rparr>"

text \<open>
  \<open>Circleguard.set_options(cache)\<close>: the loop over \<open>locals()\<close> skips \<open>self\<close> and a
  \<open>cache\<close> that is \<open>None\<close>; otherwise it assigns \<open>self.cache\<close> and then
  \<open>self.cacher.should_cache\<close>, which raises when \<open>self.cacher\<close> is \<open>None\<close>. The
  instance is returned as the call left it, with the exception if one was raised.
\<close>

definition set_options :: "bool option \<Rightarrow> circleguard \<Rightarrow> error option \<times> circleguard" where
  "set_options cache_arg cg =
     (case cache_arg of
        None \<Rightarrow> (None, cg)
      | Some b \<Rightarrow>
          (let cg1 = cg\<lparr>cache := b\<rparr> in
           case cacher cg1 of
             None \<Rightarrow> (Some AttributeError, cg1)
           | Some k \<Rightarrow> (None, cg1\<lparr>cacher := Some (k\<lparr>should_cache := b\<rparr>)\<rparr>)))"

section \<open>The generator \<open>run\<close>\<close>

text \<open>
  What \<open>run\<close> does to the outside, in the order of the source lines: the log call,
  the load of the Check, the construction of the comparer, a result of the comparer
  yielded to the consumer, the connection to the temporary library, a lookup in the
  library, the construction of an investigator, a result of an investigator yielded
  to the consumer, the disconnection from the temporary library; and how the body
  ends: an exception leaving it, or its return.
\<close>

datatype event =
    LogInfo
  | LoadCheck
  | ComparerNew
  | StealYield result
  | LibraryConnect
  | LibraryLookup nat
  | InvestigatorNew replay
  | RelaxYield result
  | LibraryClose
  | Raise error
  | Return

text \<open>What one \<open>next()\<close> on the generator gives the consumer.\<close>

datatype outcome = Yielded result | StopIteration | Raised error

text \<open>
  Where the generator is suspended, with the local state it resumes from: not yet
  started; inside \<open>yield from comparer.compare()\<close> with the items still to come;
  inside \<open>yield from investigator.investigate()\<close> with the items still to come and
  the replays the \<open>for\<close> loop has not reached yet; finished.
\<close>

datatype pc =
    Start
  | InSteal "result list" loaded
  | InRelax "result list" "replay list"
  | Finished

record gen =
  gen_self :: circleguard
  gen_check :: check
  gen_pc :: pc
  gen_trace :: "event list"

text \<open>
  The relax loop, from a point inside it up to the next \<open>yield\<close>, failure or the
  end: an item of the current investigator is yielded; when there is none left the
  loop goes to the next replay, looks its beatmap up (a failure leaves the
  generator at once) and builds its investigator; after the last replay the
  temporary library is closed and the body returns.
\<close>

fun relax_loop :: "collab \<Rightarrow> circleguard \<Rightarrow> detect \<Rightarrow> result list \<Rightarrow> replay list
    \<Rightarrow> outcome \<times> pc \<times> event list" where
  "relax_loop E cg d (x # its) rs = (Yielded x, InRelax its rs, [RelaxYield x])"
| "relax_loop E cg d [] (r # rs) =
     (case lookup_by_id E (map_id r) of
        Inl e \<Rightarrow> (Raised e, Finished, [LibraryLookup (map_id r), Raise e])
      | Inr bm \<Rightarrow>
          (case relax_loop E cg d (investigate E r bm (ur_thresh d)) rs of
             (out, p, evs) \<Rightarrow> (out, p, LibraryLookup (map_id r) # InvestigatorNew r # evs)))"
| "relax_loop E cg d [] [] =
     (StopIteration, Finished, (if library cg = None then [LibraryClose] else []) @ [Return])"

text \<open>The relax check from its \<open>if\<close>: connect to the temporary library, then loop.\<close>

definition relax_check :: "collab \<Rightarrow> circleguard \<Rightarrow> detect \<Rightarrow> loaded
    \<Rightarrow> outcome \<times> pc \<times> event list" where
  "relax_check E cg d l =
     (if relax d then
        (case relax_loop E cg d [] (all_replays l) of
           (out, p, evs) \<Rightarrow>
             (out, p, (if library cg = None then [LibraryConnect] else []) @ evs))
      else (StopIteration, Finished, [Return]))"

text \<open>
  \<open>yield from comparer.compare()\<close>: the next item is yielded; when there is none
  left the body goes on to the relax check.
\<close>

fun steal_loop :: "collab \<Rightarrow> circleguard \<Rightarrow> detect \<Rightarrow> loaded \<Rightarrow> result list
    \<Rightarrow> outcome \<times> pc \<times> event list" where
  "steal_loop E cg d l (x # its) = (Yielded x, InSteal its l, [StealYield x])"
| "steal_loop E cg d l [] = relax_check E cg d l"

text \<open>The body from its first line: log, load, then the steal check.\<close>

definition run_start :: "collab \<Rightarrow> circleguard \<Rightarrow> check \<Rightarrow> outcome \<times> pc \<times> event list" where
  "run_start E cg c =
     (case load E c of
        Inl e \<Rightarrow> (Raised e, Finished, [LogInfo, LoadCheck, Raise e])
      | Inr l \<Rightarrow>
          (let d = detect c in
           if steal d then
             (case steal_loop E cg d l
                     (compare E (steal_thresh d) (all_replays l) (all_replays2 l)) of
                (out, p, evs) \<Rightarrow> (out, p, LogInfo # LoadCheck # ComparerNew # evs))
           else
             (case relax_check E cg d l of
                (out, p, evs) \<Rightarrow> (out, p, LogInfo # LoadCheck # evs))))"

text \<open>Calling \<open>run(check)\<close> builds the generator object and runs nothing of the body.\<close>

definition run :: "circleguard \<Rightarrow> check \<Rightarrow> gen" where
  "run cg c = \<lparr> gen_self = cg, gen_check = c, gen_pc = Start, gen_trace = [] \<rparr>"

text \<open>
  \<open>next()\<close>: resume the body where it is suspended and run it to the next
  \<open>yield\<close>, its return or an exception. A finished generator raises
  \<open>StopIteration\<close> and does nothing.
\<close>

definition resume :: "collab \<Rightarrow> gen \<Rightarrow> outcome \<times> pc \<times> event list" where
  "resume E g =
     (case gen_pc g of
        Start \<Rightarrow> run_start E (gen_self g) (gen_check g)
      | InSteal its l \<Rightarrow> steal_loop E (gen_self g) (detect (gen_check g)) l its
      | InRelax its rs \<Rightarrow> relax_loop E (gen_self g) (detect (gen_check g)) its rs
      | Finished \<Rightarrow> (StopIteration, Finished, []))"

definition gen_next :: "collab \<Rightarrow> gen \<Rightarrow> outcome \<times> gen" where
  "gen_next E g =
     (case resume E g of
        (out, p, evs) \<Rightarrow> (out, g\<lparr>gen_pc := p, gen_trace := gen_trace g @ evs\<rparr>))"

text \<open>
  \<open>close()\<close>, or the generator being dropped by a consumer that stops early:
  \<open>GeneratorExit\<close> is raised at the suspended \<open>yield\<close>; the body of \<open>run\<close> has no
  \<open>try\<close>, so no line of it runs any more.
\<close>

definition gen_close :: "gen \<Rightarrow> gen" where
  "gen_close g = g\<lparr>gen_pc := Finished\<rparr>"

text \<open>The consumer pulling \<open>n\<close> times: what it got, and the generator after.\<close>

fun pulls :: "collab \<Rightarrow> nat \<Rightarrow> gen \<Rightarrow> outcome list \<times> gen" where
  "pulls E 0 g = ([], g)"
| "pulls E (Suc n) g =
     (case gen_next E g of
        (out, g') \<Rightarrow> (case pulls E n g' of (outs, g'') \<Rightarrow> (out # outs, g'')))"

section \<open>The body of \<open>run\<close> as straight-line code\<close>

text \<open>
  Lines 112 to 119 read as ordinary code, run to the end without being suspended: for
  each replay in turn the lookup, the investigator and its results, up to the first
  lookup that fails; after the last replay the temporary library is closed and the body
  returns.
\<close>

fun relax_body :: "collab \<Rightarrow> circleguard \<Rightarrow> detect \<Rightarrow> replay list \<Rightarrow> event list" where
  "relax_body E cg d [] = (if library cg = None then [LibraryClose] else []) @ [Return]"
| "relax_body E cg d (r # rs) =
     (case lookup_by_id E (map_id r) of
        Inl e \<Rightarrow> [LibraryLookup (map_id r), Raise e]
      | Inr bm \<Rightarrow>
          LibraryLookup (map_id r) # InvestigatorNew r #
          map RelaxYield (investigate E r bm (ur_thresh d)) @ relax_body E cg d rs)"

text \<open>Lines 105 to 119: the relax check from its \<open>if\<close>.\<close>

definition relax_part :: "collab \<Rightarrow> circleguard \<Rightarrow> detect \<Rightarrow> loaded \<Rightarrow> event list" where
  "relax_part E cg d l =
     (if relax d then
        (if library cg = None then [LibraryConnect] else []) @
        relax_body E cg d (all_replays l)
      else [Return])"

text \<open>
  Lines 92 to 119: everything the body does, in order, when nothing suspends it.
\<close>

definition run_body :: "collab \<Rightarrow> circleguard \<Rightarrow> check \<Rightarrow> event list" where
  "run_body E cg c =
     LogInfo # LoadCheck #
     (case load E c of
        Inl e \<Rightarrow> [Raise e]
      | Inr l \<Rightarrow>
          (let d = detect c in
           (if steal d then
              ComparerNew #
              map StealYield (compare E (steal_thresh d) (all_replays l) (all_replays2 l))
            else []) @
           relax_part E cg d l))"

text \<open>The results of the steal check of a loaded Check: none when it is not enabled.\<close>

definition steal_results :: "collab \<Rightarrow> check \<Rightarrow> loaded \<Rightarrow> result list" where
  "steal_results E c l =
     (if steal (detect c)
      then compare E (steal_thresh (detect c)) (all_replays l) (all_replays2 l) else [])"

text \<open>
  The results of investigating the replays \<open>rs\<close> when the library answers the lookup
  for replay \<open>q\<close> with the beatmap \<open>bmf q\<close>, and the events of doing so: for each
  replay in turn its lookup, its investigator and its results.
\<close>

definition investigated :: "collab \<Rightarrow> detect \<Rightarrow> (replay \<Rightarrow> beatmap) \<Rightarrow> replay list
    \<Rightarrow> result list" where
  "investigated E d bmf rs = concat (map (\<lambda>q. investigate E q (bmf q) (ur_thresh d)) rs)"

definition investigation_events :: "collab \<Rightarrow> detect \<Rightarrow> (replay \<Rightarrow> beatmap) \<Rightarrow> replay list
    \<Rightarrow> event list" where
  "investigation_events E d bmf rs =
     concat (map (\<lambda>q. LibraryLookup (map_id q) # InvestigatorNew q #
                        map RelaxYield (investigate E q (bmf q) (ur_thresh d))) rs)"

text \<open>What is left of the straight-line body from the point where a generator is suspended.\<close>

definition rest :: "collab \<Rightarrow> circleguard \<Rightarrow> check \<Rightarrow> pc \<Rightarrow> event list" where
  "rest E cg c p =
     (case p of
        Start \<Rightarrow> run_body E cg c
      | InSteal its l \<Rightarrow> map StealYield its @ relax_part E cg (detect c) l
      | InRelax its rs \<Rightarrow> map RelaxYield its @ relax_body E cg (detect c) rs
      | Finished \<Rightarrow> [])"

section \<open>Collaborators modelled from the specification\<close>

text \<open>
  Modelled from the spec: \<open>Check.load\<close> (module \<open>circleguard.replay\<close>, not among the
  source files). The specification has the orchestrator request the materialization
  of every referenced replay from the loader, whose \<open>materialize\<close> fails when the
  replay is unavailable or the caller is rate limited; the failure propagates. The
  references are materialized in order, the primary set first.
\<close>

fun materialize_all :: "(nat \<Rightarrow> error + replay) \<Rightarrow> nat list \<Rightarrow> error + replay list" where
  "materialize_all m [] = Inr []"
| "materialize_all m (x # xs) =
     (case m x of
        Inl e \<Rightarrow> Inl e
      | Inr r \<Rightarrow> (case materialize_all m xs of Inl e \<Rightarrow> Inl e | Inr rs \<Rightarrow> Inr (r # rs)))"

definition check_load :: "(nat \<Rightarrow> error + replay) \<Rightarrow> check \<Rightarrow> error + loaded" where
  "check_load m c =
     (case materialize_all m (replays c) of
        Inl e \<Rightarrow> Inl e
      | Inr rs \<Rightarrow>
          (case replays2 c of
             None \<Rightarrow> Inr \<lparr> all_replays = rs, all_replays2 = None \<rparr>
           | Some ys \<Rightarrow>
               (case materialize_all m ys of
                  Inl e \<Rightarrow> Inl e
                | Inr rs2 \<Rightarrow> Inr \<lparr> all_replays = rs, all_replays2 = Some rs2 \<rparr>)))"

text \<open>
  Modelled from the spec: \<open>Comparer.compare\<close> (module \<open>circleguard.comparer\<close>, not
  among the source files). Without a second set every unordered pair of the primary
  set is compared exactly once, in the order of the set; with a second set every
  (primary, secondary) pair is compared exactly once; every pair gives one result, also
  when the data is insufficient. The comparison of one pair is the parameter \<open>sim\<close>.
\<close>

fun all_pairs :: "'a list \<Rightarrow> ('a \<times> 'a) list" where
  "all_pairs [] = []"
| "all_pairs (x # xs) = map (Pair x) xs @ all_pairs xs"

definition comparer_compare :: "(int \<Rightarrow> replay \<Rightarrow> replay \<Rightarrow> result)
    \<Rightarrow> int \<Rightarrow> replay list \<Rightarrow> replay list option \<Rightarrow> result list" where
  "comparer_compare sim th rs rs2 =
     map (\<lambda>(a, b). sim th a b)
       (case rs2 of None \<Rightarrow> all_pairs rs | Some ys \<Rightarrow> List.product rs ys)"

section \<open>Reading a trace\<close>

text \<open>The events of the steal check, and those of the relax check.\<close>

fun is_steal :: "event \<Rightarrow> bool" where
  "is_steal ComparerNew = True"
| "is_steal (StealYield x) = True"
| "is_steal e = False"

fun is_relax :: "event \<Rightarrow> bool" where
  "is_relax LibraryConnect = True"
| "is_relax (LibraryLookup m) = True"
| "is_relax (InvestigatorNew r) = True"
| "is_relax (RelaxYield x) = True"
| "is_relax LibraryClose = True"
| "is_relax e = False"

text \<open>The events at which a pull hands control back to the consumer.\<close>

fun is_stop :: "event \<Rightarrow> bool" where
  "is_stop (StealYield x) = True"
| "is_stop (RelaxYield x) = True"
| "is_stop (Raise e) = True"
| "is_stop Return = True"
| "is_stop e = False"

text \<open>
  The part of a list of events up to and including its \<open>n\<close>-th point of handing
  control back (the whole list when it has fewer), and what the consumer is given at
  each such point.
\<close>

fun upto_stops :: "nat \<Rightarrow> event list \<Rightarrow> event list" where
  "upto_stops 0 es = []"
| "upto_stops (Suc n) [] = []"
| "upto_stops (Suc n) (e # es) =
     e # (if is_stop e then upto_stops n es else upto_stops (Suc n) es)"

fun outcome_of :: "event \<Rightarrow> outcome" where
  "outcome_of (StealYield x) = Yielded x"
| "outcome_of (RelaxYield x) = Yielded x"
| "outcome_of (Raise e) = Raised e"
| "outcome_of ev = StopIteration"

definition handed :: "event list \<Rightarrow> outcome list" where
  "handed es = map outcome_of (filter is_stop es)"

text \<open>One pull's events: no point of handing back but the last event, which gives \<open>out\<close>.\<close>

definition step_of :: "outcome \<Rightarrow> event list \<Rightarrow> bool" where
  "step_of out evs =
     (\<exists>pre s. evs = pre @ [s] \<and> (\<forall>e \<in> set pre. \<not> is_stop e) \<and> is_stop s \<and>
              outcome_of s = out)"

text \<open>The results a trace has yielded, and the results a consumer has received.\<close>

fun yields :: "event list \<Rightarrow> result list" where
  "yields [] = []"
| "yields (StealYield x # es) = x # yields es"
| "yields (RelaxYield x # es) = x # yields es"
| "yields (e # es) = yields es"

fun delivered :: "outcome list \<Rightarrow> result list" where
  "delivered [] = []"
| "delivered (Yielded x # os) = x # delivered os"
| "delivered (out # os) = delivered os"

text \<open>The map identifiers looked up in the library, in order, with repetitions.\<close>

fun lookups :: "event list \<Rightarrow> nat list" where
  "lookups [] = []"
| "lookups (LibraryLookup m # es) = m # lookups es"
| "lookups (e # es) = lookups es"

text \<open>No event of the steal check comes after an event of the relax check.\<close>

fun steal_then_relax :: "event list \<Rightarrow> bool" where
  "steal_then_relax [] = True"
| "steal_then_relax (e # es) =
     ((is_relax e \<longrightarrow> (\<forall>x \<in> set es. \<not> is_steal x)) \<and> steal_then_relax es)"

text \<open>
  A lookup that the library fails is followed by the exception leaving \<open>run\<close>, and
  by nothing else.
\<close>

fun failure_ends :: "collab \<Rightarrow> event list \<Rightarrow> bool" where
  "failure_ends E [] = True"
| "failure_ends E (ev # es) =
     (case ev of
        LibraryLookup m \<Rightarrow>
          (case lookup_by_id E m of Inl e \<Rightarrow> es = [Raise e] | Inr bm \<Rightarrow> failure_ends E es)
      | _ \<Rightarrow> failure_ends E es)"

section \<open>An example environment\<close>

text \<open>
  A loader for which reference 0 is unavailable and every other reference \<open>i\<close> is a
  replay of map \<open>i div 10\<close>; a library that cannot resolve map 9; a comparison and
  an investigation that give one result each.
\<close>

definition ex_materialize :: "nat \<Rightarrow> error + replay" where
  "ex_materialize i =
     (if i = 0 then Inl (ReplayUnavailable 0) else Inr \<lparr> replay_id = i, map_id = i div 10 \<rparr>)"

definition ex_sim :: "int \<Rightarrow> replay \<Rightarrow> replay \<Rightarrow> result" where
  "ex_sim th a b = ComparisonResult a b"

definition ex_lookup :: "nat \<Rightarrow> error + beatmap" where
  "ex_lookup m = (if m = 9 then Inl (UnknownMap 9) else Inr (Beatmap m))"

definition ex_investigate :: "replay \<Rightarrow> beatmap \<Rightarrow> int \<Rightarrow> result list" where
  "ex_investigate r bm th = [RelaxResult r]"

definition ex_collab :: collab where
  "ex_collab = \<lparr> load = check_load ex_materialize, compare = comparer_compare ex_sim,
                 lookup_by_id = ex_lookup, investigate = ex_investigate \<rparr>"

definition ex_replay :: "nat \<Rightarrow> replay" where
  "ex_replay i = \<lparr> replay_id = i, map_id = i div 10 \<rparr>"

definition ex_detect :: "bool \<Rightarrow> bool \<Rightarrow> detect" where
  "ex_detect s r = \<lparr> steal = s, relax = r, steal_thresh = 18, ur_thresh = 50 \<rparr>"

definition ex_check :: "nat list \<Rightarrow> bool \<Rightarrow> bool \<Rightarrow> check" where
  "ex_check refs s r = \<lparr> replays = refs, replays2 = None, detect = ex_detect s r \<rparr>"

definition ex_check2 :: "nat list \<Rightarrow> nat list \<Rightarrow> bool \<Rightarrow> bool \<Rightarrow> check" where
  "ex_check2 refs refs2 s r = \<lparr> replays = refs, replays2 = Some refs2, detect = ex_detect s r \<rparr>"

definition ex_beatmap :: "replay \<Rightarrow> beatmap" where
  "ex_beatmap q = Beatmap (map_id q)"

text \<open>An instance with a temporary slider directory, and one with a directory of its own.\<close>

definition ex_cg :: circleguard where
  "ex_cg = init ''key'' None None True"


section \<open>Invariants of the generator\<close>

text \<open>
  Where the generator is suspended bounds what its trace holds: nothing before the
  first pull, no event of the relax check while the comparer is being drained, and
  the steal events before the relax events afterwards.
\<close>

definition order_ok :: "pc \<Rightarrow> event list \<Rightarrow> bool" where
  "order_ok p tr = (case p of
       Start \<Rightarrow> tr = []
     | InSteal its l \<Rightarrow> (\<forall>e \<in> set tr. \<not> is_relax e)
     | _ \<Rightarrow> steal_then_relax tr)"


text \<open>An event that is neither a failed lookup nor an exception leaving the body.\<close>

fun ok_event :: "collab \<Rightarrow> event \<Rightarrow> bool" where
  "ok_event E (LibraryLookup m) = (case lookup_by_id E m of Inl e \<Rightarrow> False | Inr bm \<Rightarrow> True)"
| "ok_event E (Raise e) = False"
| "ok_event E ev = True"

text \<open>
  The lookups of a run follow the loaded replays \<open>rs0\<close>, one for one: none before the
  relax check, inside the loop one for each replay the loop has reached, and at the end
  one for each replay when the body has returned from an enabled relax check (\<open>rx\<close>).
\<close>

definition lookups_ok :: "replay list \<Rightarrow> bool \<Rightarrow> pc \<Rightarrow> event list \<Rightarrow> bool" where
  "lookups_ok rs0 rx p tr =
     (case p of
        Start \<Rightarrow> tr = []
      | InSteal its l \<Rightarrow> all_replays l = rs0 \<and> lookups tr = [] \<and> Return \<notin> set tr
      | InRelax its rs \<Rightarrow>
          lookups tr @ map map_id rs = map map_id rs0 \<and> Return \<notin> set tr
      | Finished \<Rightarrow>
          lookups tr = take (length (lookups tr)) (map map_id rs0) \<and>
          (Return \<in> set tr \<and> rx \<longrightarrow> lookups tr = map map_id rs0))"

section \<open>Calling \<open>run\<close> and the first pull\<close>

text \<open>
  C9. Calling \<open>run(check)\<close> performs nothing: the generator it returns has an empty
  trace and is not started. The load of the Check happens in the first pull: whatever
  the collaborators do, the trace after the first \<open>next()\<close> begins with the log call
  and the load.
\<close>

theorem run_call_has_no_effect:
  "gen_trace (run cg c) = [] \<and> gen_pc (run cg c) = Start \<and>
   take 2 (gen_trace (snd (gen_next E (run cg c)))) = [LogInfo, LoadCheck]"
  by (simp add: run_def gen_next_def resume_def run_start_def Let_def split: sum.splits prod.splits)

section \<open>\<open>set_options\<close>\<close>

text \<open>
  C10. On an instance built with \<open>db_path=None\<close>, \<open>set_options(cache=b)\<close> raises
  \<open>AttributeError\<close> and leaves \<open>self.cache\<close> set to \<open>b\<close>; on an instance built with a
  database path it raises nothing and sets both \<open>self.cache\<close> and
  \<open>self.cacher.should_cache\<close> to \<open>b\<close>.
\<close>

theorem set_options_cache_without_cacher:
  "set_options (Some b) (init key None sd c0) =
     (Some AttributeError, (init key None sd c0)\<lparr>cache := b\<rparr>) \<and>
   cache (snd (set_options (Some b) (init key None sd c0))) = b \<and>
   set_options (Some b) (init key (Some p) sd c0) =
     (None, (init key (Some p) sd c0)
              \<lparr>cache := b, cacher := Some \<lparr> should_cache = b, db_path = p \<rparr>\<rparr>) \<and>
   (fst (set_options (Some b) (init key dbp sd c0)) = None) = (dbp \<noteq> None)"
  by (cases dbp) (simp_all add: set_options_def init_def Let_def)

section \<open>Pulling from the generator\<close>


lemma gen_next_Finished: "gen_pc g = Finished \<Longrightarrow> gen_next E g = (StopIteration, g)"
  by (simp add: gen_next_def resume_def)

lemma pulls_Finished: "gen_pc g = Finished \<Longrightarrow> pulls E n g = (replicate n StopIteration, g)"
  by (induction n) (simp_all add: gen_next_Finished)

lemma snd_pulls_Suc: "snd (pulls E (Suc n) g) = snd (pulls E n (snd (gen_next E g)))"
  by (simp split: prod.splits)

lemma fst_pulls_Suc:
  "fst (pulls E (Suc n) g) = fst (gen_next E g) # fst (pulls E n (snd (gen_next E g)))"
  by (simp split: prod.splits)

lemma pulls_invariant:
  assumes "P g" and "\<And>h. P h \<Longrightarrow> P (snd (gen_next E h))"
  shows "P (snd (pulls E n g))"
  using assms(1)
proof (induction n arbitrary: g)
  case 0
  then show ?case by simp
next
  case (Suc n)
  have "P (snd (gen_next E g))" using Suc.prems assms(2) by blast
  from Suc.IH [OF this] show ?case by (simp only: snd_pulls_Suc)
qed

text \<open>The ways each part of the body can go, as case rules.\<close>

lemma run_start_cases [consumes 1, case_names Fail Steal NoSteal]:
  assumes "run_start E cg c = (out, p, evs)"
  obtains
    (Fail) e where "load E c = Inl e" "out = Raised e" "p = Finished"
      "evs = [LogInfo, LoadCheck, Raise e]"
  | (Steal) l evs' where "load E c = Inr l" "steal (detect c)"
      "steal_loop E cg (detect c) l
         (compare E (steal_thresh (detect c)) (all_replays l) (all_replays2 l)) = (out, p, evs')"
      "evs = [LogInfo, LoadCheck, ComparerNew] @ evs'"
  | (NoSteal) l evs' where "load E c = Inr l" "\<not> steal (detect c)"
      "relax_check E cg (detect c) l = (out, p, evs')"
      "evs = [LogInfo, LoadCheck] @ evs'"
proof (cases "load E c")
  case (Inl e)
  then show ?thesis using assms Fail by (simp add: run_start_def)
next
  case (Inr l)
  show ?thesis
  proof (cases "steal (detect c)")
    case True
    then show ?thesis using assms Inr Steal [of l]
      by (auto simp: run_start_def Let_def split: prod.splits)
  next
    case False
    then show ?thesis using assms Inr NoSteal [of l]
      by (auto simp: run_start_def Let_def split: prod.splits)
  qed
qed

lemma steal_loop_cases [consumes 1, case_names Item Done]:
  assumes "steal_loop E cg d l its = (out, p, evs)"
  obtains
    (Item) x xs where "its = x # xs" "out = Yielded x" "p = InSteal xs l" "evs = [StealYield x]"
  | (Done) "its = []" "relax_check E cg d l = (out, p, evs)"
  using assms by (cases its) auto

lemma relax_check_cases [consumes 1, case_names Off On]:
  assumes "relax_check E cg d l = (out, p, evs)"
  obtains
    (Off) "\<not> relax d" "out = StopIteration" "p = Finished" "evs = [Return]"
  | (On) evs' where "relax d" "relax_loop E cg d [] (all_replays l) = (out, p, evs')"
      "evs = (if library cg = None then [LibraryConnect] else []) @ evs'"
  using assms by (cases "relax d") (auto simp: relax_check_def split: prod.splits)

lemma resume_cases [consumes 1, case_names Start InSteal InRelax Finished]:
  assumes "resume E g = (out, p, evs)"
  obtains
    (Start) "gen_pc g = Start" "run_start E (gen_self g) (gen_check g) = (out, p, evs)"
  | (InSteal) its l where "gen_pc g = InSteal its l"
      "steal_loop E (gen_self g) (detect (gen_check g)) l its = (out, p, evs)"
  | (InRelax) its rs where "gen_pc g = InRelax its rs"
      "relax_loop E (gen_self g) (detect (gen_check g)) its rs = (out, p, evs)"
  | (Finished) "gen_pc g = Finished" "out = StopIteration" "p = Finished" "evs = []"
  using assms by (cases "gen_pc g") (auto simp: resume_def)

section \<open>Steal results come before the relax check\<close>

lemma relax_loop_pc:
  "relax_loop E cg d its rs = (out, p, evs) \<Longrightarrow>
     (case out of Yielded x \<Rightarrow> (\<exists>its' rs'. p = InRelax its' rs') | _ \<Rightarrow> p = Finished)"
  by (induction E cg d its rs arbitrary: out p evs rule: relax_loop.induct)
     (auto split: sum.splits prod.splits)

lemma relax_loop_no_steal:
  "relax_loop E cg d its rs = (out, p, evs) \<Longrightarrow> e \<in> set evs \<Longrightarrow> \<not> is_steal e"
  by (induction E cg d its rs arbitrary: out p evs rule: relax_loop.induct)
     (fastforce split: sum.splits prod.splits if_splits)+

lemma relax_check_pc:
  "relax_check E cg d l = (out, p, evs) \<Longrightarrow>
     (case out of Yielded x \<Rightarrow> (\<exists>its' rs'. p = InRelax its' rs') | _ \<Rightarrow> p = Finished)"
  by (auto simp: relax_check_def split: if_splits prod.splits dest: relax_loop_pc)

lemma relax_check_no_steal:
  "relax_check E cg d l = (out, p, evs) \<Longrightarrow> e \<in> set evs \<Longrightarrow> \<not> is_steal e"
  by (auto simp: relax_check_def split: if_splits prod.splits dest: relax_loop_no_steal)

lemma steal_then_relax_append:
  "steal_then_relax (xs @ ys) =
     (steal_then_relax xs \<and> steal_then_relax ys \<and>
      ((\<exists>x \<in> set xs. is_relax x) \<longrightarrow> (\<forall>y \<in> set ys. \<not> is_steal y)))"
  by (induction xs) auto

lemma no_steal_ordered: "\<forall>e \<in> set evs. \<not> is_steal e \<Longrightarrow> steal_then_relax evs"
  by (induction evs) auto

lemma no_relax_ordered: "\<forall>e \<in> set tr. \<not> is_relax e \<Longrightarrow> steal_then_relax tr"
  by (induction tr) auto

lemma relax_loop_order:
  assumes "relax_loop E cg d its rs = (out, p, evs)" and "steal_then_relax tr"
  shows "order_ok p (tr @ evs)"
proof -
  have ns: "\<forall>e \<in> set evs. \<not> is_steal e" using relax_loop_no_steal [OF assms(1)] by blast
  then have "steal_then_relax (tr @ evs)"
    using assms(2) by (simp add: steal_then_relax_append no_steal_ordered)
  then show ?thesis
    using relax_loop_pc [OF assms(1)] by (cases out) (auto simp: order_ok_def)
qed

lemma relax_check_order:
  assumes "relax_check E cg d l = (out, p, evs)" and "steal_then_relax tr"
  shows "order_ok p (tr @ evs)"
proof -
  have ns: "\<forall>e \<in> set evs. \<not> is_steal e" using relax_check_no_steal [OF assms(1)] by blast
  then have "steal_then_relax (tr @ evs)"
    using assms(2) by (simp add: steal_then_relax_append no_steal_ordered)
  then show ?thesis
    using relax_check_pc [OF assms(1)] by (cases out) (auto simp: order_ok_def)
qed

lemma steal_loop_order:
  assumes "steal_loop E cg d l its = (out, p, evs)" and "\<forall>e \<in> set tr. \<not> is_relax e"
  shows "order_ok p (tr @ evs)"
proof (cases its)
  case Nil
  then show ?thesis
    using assms relax_check_order [of E cg d l out p evs tr] by (simp add: no_relax_ordered)
next
  case (Cons x xs)
  then show ?thesis using assms by (auto simp: order_ok_def)
qed

lemma run_start_order:
  assumes "run_start E cg c = (out, p, evs)"
  shows "order_ok p evs"
proof (cases "load E c")
  case (Inl e)
  then show ?thesis using assms by (auto simp: run_start_def order_ok_def)
next
  case (Inr l)
  show ?thesis
  proof (cases "steal (detect c)")
    case True
    then obtain evs' where
      s: "steal_loop E cg (detect c) l
            (compare E (steal_thresh (detect c)) (all_replays l) (all_replays2 l)) = (out, p, evs')"
      and e: "evs = [LogInfo, LoadCheck, ComparerNew] @ evs'"
      using assms Inr by (auto simp: run_start_def Let_def split: prod.splits)
    show ?thesis unfolding e by (rule steal_loop_order [OF s]) simp
  next
    case False
    then obtain evs' where
      s: "relax_check E cg (detect c) l = (out, p, evs')"
      and e: "evs = [LogInfo, LoadCheck] @ evs'"
      using assms Inr by (auto simp: run_start_def Let_def split: prod.splits)
    show ?thesis unfolding e by (rule relax_check_order [OF s]) simp
  qed
qed

lemma resume_order:
  assumes "order_ok (gen_pc g) (gen_trace g)" and "resume E g = (out, p, evs)"
  shows "order_ok p (gen_trace g @ evs)"
proof (cases "gen_pc g")
  case Start
  then show ?thesis using assms run_start_order [of E "gen_self g" "gen_check g" out p evs]
    by (simp add: resume_def order_ok_def)
next
  case (InSteal its l)
  then show ?thesis using assms steal_loop_order [of E _ _ l its out p evs "gen_trace g"]
    by (simp add: resume_def order_ok_def)
next
  case (InRelax its rs)
  then show ?thesis using assms relax_loop_order [of E _ _ its rs out p evs "gen_trace g"]
    by (simp add: resume_def order_ok_def)
next
  case Finished
  then show ?thesis using assms by (auto simp: resume_def)
qed

lemma gen_next_order:
  "order_ok (gen_pc g) (gen_trace g) \<Longrightarrow>
   order_ok (gen_pc (snd (gen_next E g))) (gen_trace (snd (gen_next E g)))"
  using resume_order [of g E] by (cases "resume E g") (auto simp: gen_next_def)

lemma order_ok_ordered: "order_ok p tr \<Longrightarrow> steal_then_relax tr"
  by (cases p) (auto simp: order_ok_def no_relax_ordered)

lemma pulls_order: "steal_then_relax (gen_trace (snd (pulls E n (run cg c))))"
proof -
  have "order_ok (gen_pc (snd (pulls E n (run cg c)))) (gen_trace (snd (pulls E n (run cg c))))"
  proof (rule pulls_invariant [where P = "\<lambda>g. order_ok (gen_pc g) (gen_trace g)"])
    show "order_ok (gen_pc (run cg c)) (gen_trace (run cg c))"
      by (simp add: run_def order_ok_def)
  qed (rule gen_next_order)
  then show ?thesis by (rule order_ok_ordered)
qed

lemma pulls_InSteal:
  "gen_pc g = InSteal its l \<Longrightarrow> k \<le> length its \<Longrightarrow>
   pulls E k g = (map Yielded (take k its),
                  g\<lparr>gen_pc := InSteal (drop k its) l,
                    gen_trace := gen_trace g @ map StealYield (take k its)\<rparr>)"
proof (induction k arbitrary: g its)
  case 0
  then show ?case by simp
next
  case (Suc k)
  then obtain x xs where its: "its = x # xs" by (cases its) auto
  have n: "gen_next E g = (Yielded x, g\<lparr>gen_pc := InSteal xs l, gen_trace := gen_trace g @ [StealYield x]\<rparr>)"
    using Suc.prems its by (simp add: gen_next_def resume_def)
  show ?case using Suc.IH [of "g\<lparr>gen_pc := InSteal xs l, gen_trace := gen_trace g @ [StealYield x]\<rparr>" xs] Suc.prems its n
    by simp
qed

lemma pulls_steal_first:
  assumes "load E c = Inr l" and "steal (detect c)"
    and "compare E (steal_thresh (detect c)) (all_replays l) (all_replays2 l) = xs"
    and "0 < k" and "k \<le> length xs"
  shows "pulls E k (run cg c) =
           (map Yielded (take k xs),
            (run cg c)\<lparr>gen_pc := InSteal (drop k xs) l,
                       gen_trace := [LogInfo, LoadCheck, ComparerNew] @ map StealYield (take k xs)\<rparr>)"
proof -
  obtain j where k: "k = Suc j" using assms(4) by (cases k) auto
  obtain x ys where xs: "xs = x # ys" using assms(4,5) by (cases xs) auto
  have n: "gen_next E (run cg c) =
        (Yielded x, (run cg c)\<lparr>gen_pc := InSteal ys l, gen_trace := [LogInfo, LoadCheck, ComparerNew, StealYield x]\<rparr>)"
    using assms(1,2,3) xs by (simp add: gen_next_def resume_def run_def run_start_def)
  have "j \<le> length ys" using assms(5) k xs by simp
  from pulls_InSteal [of "(run cg c)\<lparr>gen_pc := InSteal ys l, gen_trace := [LogInfo, LoadCheck, ComparerNew, StealYield x]\<rparr>" ys l j E, OF _ this]
  show ?thesis using n k xs by simp
qed

text \<open>
  C1 (amended). In the trace of a run, after any number of pulls, no event of the steal
  check (the construction of the comparer, a steal result being yielded) comes after an
  event of the relax check (connecting to the library, a lookup, an investigator, a relax
  result, closing the library). When the Check enables the steal detector and the
  comparer produces results, the first pulls hand over exactly these results, in order,
  and the trace holds no event of the relax check until the last of them is yielded.
\<close>

theorem steal_results_precede_relax:
  "steal_then_relax (gen_trace (snd (pulls E n (run cg c)))) \<and>
   (load E c = Inr l \<and> steal (detect c) \<and> 0 < k \<and>
    k \<le> length (compare E (steal_thresh (detect c)) (all_replays l) (all_replays2 l)) \<longrightarrow>
    pulls E k (run cg c) =
      (map Yielded
         (take k (compare E (steal_thresh (detect c)) (all_replays l) (all_replays2 l))),
       (run cg c)\<lparr>gen_pc :=
                    InSteal (drop k (compare E (steal_thresh (detect c)) (all_replays l)
                                      (all_replays2 l))) l,
                  gen_trace :=
                    [LogInfo, LoadCheck, ComparerNew] @
                    map StealYield
                      (take k (compare E (steal_thresh (detect c)) (all_replays l)
                                 (all_replays2 l)))\<rparr>))"
  using pulls_order [of E n cg c] pulls_steal_first [of E c l _ k cg] by blast

theorem steal_results_precede_relax_witness:
  "load ex_collab (ex_check [11, 12, 21] True True) =
     Inr \<lparr> all_replays = [ex_replay 11, ex_replay 12, ex_replay 21], all_replays2 = None \<rparr> \<and>
   steal (detect (ex_check [11, 12, 21] True True)) \<and>
   relax (detect (ex_check [11, 12, 21] True True)) \<and>
   compare ex_collab 18 [ex_replay 11, ex_replay 12, ex_replay 21] None =
     [ComparisonResult (ex_replay 11) (ex_replay 12),
      ComparisonResult (ex_replay 11) (ex_replay 21),
      ComparisonResult (ex_replay 12) (ex_replay 21)] \<and>
   steal_then_relax
     (gen_trace (snd (pulls ex_collab 7 (run ex_cg (ex_check [11, 12, 21] True True))))) \<and>
   gen_trace (snd (pulls ex_collab 3 (run ex_cg (ex_check [11, 12, 21] True True)))) =
     [LogInfo, LoadCheck, ComparerNew,
      StealYield (ComparisonResult (ex_replay 11) (ex_replay 12)),
      StealYield (ComparisonResult (ex_replay 11) (ex_replay 21)),
      StealYield (ComparisonResult (ex_replay 12) (ex_replay 21))]"
proof -
  let ?c = "ex_check [11, 12, 21] True True"
  let ?l = "\<lparr> all_replays = [ex_replay 11, ex_replay 12, ex_replay 21], all_replays2 = None \<rparr>"
  have h1: "load ex_collab ?c = Inr ?l"
    by (simp add: ex_collab_def check_load_def ex_check_def ex_materialize_def ex_replay_def)
  have h2: "steal (detect ?c) \<and> relax (detect ?c) \<and> steal_thresh (detect ?c) = 18"
    by (simp add: ex_check_def ex_detect_def)
  have h3: "compare ex_collab 18 [ex_replay 11, ex_replay 12, ex_replay 21] None =
     [ComparisonResult (ex_replay 11) (ex_replay 12),
      ComparisonResult (ex_replay 11) (ex_replay 21),
      ComparisonResult (ex_replay 12) (ex_replay 21)]"
    by (simp add: ex_collab_def comparer_compare_def ex_sim_def)
  have h4: "(0::nat) < 3 \<and> 3 \<le> length (compare ex_collab 18 [ex_replay 11, ex_replay 12, ex_replay 21] None)"
    by (simp add: h3)
  show ?thesis
    using steal_results_precede_relax [of ex_collab 7 ex_cg ?c ?l 3] h1 h2 h3 h4
    by simp
qed

text \<open>
  A Check with one replay enables both detectors: the comparer has no pair to compare,
  and the first result the consumer gets is the relax result, after the library has
  been connected. No steal result is observed before the relax check starts.
\<close>

theorem first_result_can_be_relax:
  "steal (detect (ex_check [11] True True)) \<and> relax (detect (ex_check [11] True True)) \<and>
   pulls ex_collab 2 (run ex_cg (ex_check [11] True True)) =
     ([Yielded (RelaxResult (ex_replay 11)), StopIteration],
      \<lparr> gen_self = ex_cg, gen_check = ex_check [11] True True, gen_pc = Finished,
        gen_trace = [LogInfo, LoadCheck, ComparerNew, LibraryConnect, LibraryLookup 1,
                     InvestigatorNew (ex_replay 11), RelaxYield (RelaxResult (ex_replay 11)),
                     LibraryClose, Return] \<rparr>)"
  by code_simp

section \<open>Runs without the relax detector\<close>

lemma relax_check_disabled:
  "\<not> relax d \<Longrightarrow> relax_check E cg d l = (StopIteration, Finished, [Return])"
  by (simp add: relax_check_def)

lemma steal_loop_no_relax:
  "\<not> relax d \<Longrightarrow> steal_loop E cg d l its = (out, p, evs) \<Longrightarrow>
   (\<forall>xs rs. p \<noteq> InRelax xs rs) \<and> (\<forall>e \<in> set evs. \<not> is_relax e)"
  by (cases its) (auto simp: relax_check_disabled)

lemma run_start_no_relax:
  assumes "\<not> relax (detect c)" and "run_start E cg c = (out, p, evs)"
  shows "(\<forall>xs rs. p \<noteq> InRelax xs rs) \<and> (\<forall>e \<in> set evs. \<not> is_relax e)"
  using assms(2)
proof (cases rule: run_start_cases)
  case (Fail e)
  then show ?thesis by simp
next
  case (Steal l evs')
  then show ?thesis using steal_loop_no_relax [OF assms(1) Steal(3)] by simp
next
  case (NoSteal l evs')
  then show ?thesis using assms(1) by (auto simp: relax_check_disabled)
qed

lemma resume_no_relax:
  assumes "\<not> relax (detect (gen_check g))" and "\<forall>xs rs. gen_pc g \<noteq> InRelax xs rs"
    and "resume E g = (out, p, evs)"
  shows "(\<forall>xs rs. p \<noteq> InRelax xs rs) \<and> (\<forall>e \<in> set evs. \<not> is_relax e)"
proof (cases "gen_pc g")
  case Start
  then show ?thesis using assms run_start_no_relax [of "gen_check g" E "gen_self g" out p evs]
    by (simp add: resume_def)
next
  case (InSteal its l)
  then show ?thesis
    using assms steal_loop_no_relax [of "detect (gen_check g)" E "gen_self g" l its out p evs]
    by (simp add: resume_def)
next
  case (InRelax its rs)
  then show ?thesis using assms by simp
next
  case Finished
  then show ?thesis using assms by (auto simp: resume_def)
qed

lemma gen_next_no_relax:
  assumes "gen_check g = c \<and> (\<forall>xs rs. gen_pc g \<noteq> InRelax xs rs) \<and>
           (\<forall>e \<in> set (gen_trace g). \<not> is_relax e)"
    and "\<not> relax (detect c)"
  shows "gen_check (snd (gen_next E g)) = c \<and>
         (\<forall>xs rs. gen_pc (snd (gen_next E g)) \<noteq> InRelax xs rs) \<and>
         (\<forall>e \<in> set (gen_trace (snd (gen_next E g))). \<not> is_relax e)"
proof -
  obtain out p evs where r: "resume E g = (out, p, evs)" by (cases "resume E g") auto
  from resume_no_relax [OF _ _ r] assms
  have "(\<forall>xs rs. p \<noteq> InRelax xs rs) \<and> (\<forall>e \<in> set evs. \<not> is_relax e)" by blast
  then show ?thesis using assms r by (auto simp: gen_next_def)
qed

lemma pulls_no_relax:
  assumes "\<not> relax (detect c)"
  shows "\<forall>e \<in> set (gen_trace (snd (pulls E n (run cg c)))). \<not> is_relax e"
proof -
  let ?P = "\<lambda>g::gen. gen_check g = c \<and> (\<forall>xs rs. gen_pc g \<noteq> InRelax xs rs) \<and>
                 (\<forall>e \<in> set (gen_trace g). \<not> is_relax e)"
  have "?P (snd (pulls E n (run cg c)))"
  proof (rule pulls_invariant [where P = ?P])
    show "?P (run cg c)" by (simp add: run_def)
  next
    fix h assume "?P h"
    then show "?P (snd (gen_next E h))" using gen_next_no_relax [of h c E] assms by blast
  qed
  then show ?thesis by blast
qed

section \<open>A Check without detectors\<close>

lemma first_pull_no_detector:
  assumes "\<not> steal (detect c)" and "\<not> relax (detect c)"
  shows "gen_next E (run cg c) =
     (case load E c of
        Inl e \<Rightarrow> (Raised e, (run cg c)\<lparr>gen_pc := Finished, gen_trace := [LogInfo, LoadCheck, Raise e]\<rparr>)
      | Inr l \<Rightarrow> (StopIteration, (run cg c)\<lparr>gen_pc := Finished, gen_trace := [LogInfo, LoadCheck, Return]\<rparr>))"
  using assms
  by (simp add: gen_next_def resume_def run_def run_start_def relax_check_disabled split: sum.splits)

lemma pulls_no_detector:
  assumes "\<not> steal (detect c)" and "\<not> relax (detect c)"
  shows "pulls E (Suc n) (run cg c) =
     (case load E c of
        Inl e \<Rightarrow> (Raised e # replicate n StopIteration,
                  (run cg c)\<lparr>gen_pc := Finished, gen_trace := [LogInfo, LoadCheck, Raise e]\<rparr>)
      | Inr l \<Rightarrow> (replicate (Suc n) StopIteration,
                  (run cg c)\<lparr>gen_pc := Finished, gen_trace := [LogInfo, LoadCheck, Return]\<rparr>))"
  using first_pull_no_detector [OF assms, of E cg]
  by (cases "load E c") (simp_all add: pulls_Finished)

lemma delivered_replicate_stop: "delivered (replicate n StopIteration) = []"
  by (induction n) simp_all

lemma pulls_no_detector_results:
  assumes "\<not> steal (detect c)" and "\<not> relax (detect c)"
  shows "delivered (fst (pulls E n (run cg c))) = []"
proof (cases n)
  case 0
  then show ?thesis by simp
next
  case (Suc m)
  then show ?thesis using pulls_no_detector [OF assms, of E m cg]
    by (cases "load E c") (simp_all add: delivered_replicate_stop)
qed

lemma pulls_no_steal:
  assumes "\<not> steal (detect c)" and "\<not> relax (detect c)"
  shows "\<forall>e \<in> set (gen_trace (snd (pulls E n (run cg c)))). \<not> is_steal e"
proof (cases n)
  case 0
  then show ?thesis by (simp add: run_def)
next
  case (Suc m)
  then show ?thesis using pulls_no_detector [OF assms, of E m cg]
    by (cases "load E c") simp_all
qed

text \<open>
  C5 (amended). When the Check enables no detector, the consumer receives no result,
  however often it pulls. \<open>run\<close> still loads the Check first: when the load
  succeeds the first pull and every later one give \<open>StopIteration\<close>; when
  the loader fails, the first pull raises the loader's error.
\<close>

theorem no_detector_no_result:
  "\<not> steal (detect c) \<and> \<not> relax (detect c) \<longrightarrow>
   delivered (fst (pulls E n (run cg c))) = [] \<and>
   pulls E (Suc n) (run cg c) =
     (case load E c of
        Inl e \<Rightarrow> (Raised e # replicate n StopIteration,
                  (run cg c)\<lparr>gen_pc := Finished, gen_trace := [LogInfo, LoadCheck, Raise e]\<rparr>)
      | Inr l \<Rightarrow> (replicate (Suc n) StopIteration,
                  (run cg c)\<lparr>gen_pc := Finished, gen_trace := [LogInfo, LoadCheck, Return]\<rparr>))"
  using pulls_no_detector [of c E n cg] pulls_no_detector_results [of c E n cg] by blast

theorem no_detector_no_result_witness:
  "\<not> steal (detect (ex_check [11, 12] False False)) \<and>
   \<not> relax (detect (ex_check [11, 12] False False)) \<and>
   load ex_collab (ex_check [11, 12] False False) =
     Inr \<lparr> all_replays = [ex_replay 11, ex_replay 12], all_replays2 = None \<rparr> \<and>
   delivered (fst (pulls ex_collab 2 (run ex_cg (ex_check [11, 12] False False)))) = [] \<and>
   pulls ex_collab 2 (run ex_cg (ex_check [11, 12] False False)) =
     ([StopIteration, StopIteration],
      (run ex_cg (ex_check [11, 12] False False))
        \<lparr>gen_pc := Finished, gen_trace := [LogInfo, LoadCheck, Return]\<rparr>)"
proof -
  let ?c = "ex_check [11, 12] False False"
  have h: "\<not> steal (detect ?c) \<and> \<not> relax (detect ?c)"
    by (simp add: ex_check_def ex_detect_def)
  have l: "load ex_collab ?c = Inr \<lparr> all_replays = [ex_replay 11, ex_replay 12], all_replays2 = None \<rparr>"
    by (simp add: ex_collab_def check_load_def ex_check_def ex_materialize_def ex_replay_def)
  have two: "(2::nat) = Suc 1" by simp
  show ?thesis
    using no_detector_no_result [of ?c ex_collab 1 ex_cg] no_detector_no_result [of ?c ex_collab 2 ex_cg] h l
    by (simp add: two del: pulls.simps)
qed

text \<open>
  A Check without detectors that refers to an unavailable replay: the first pull raises
  the loader's error, so the stream does not end without error.
\<close>

theorem no_detector_load_failure:
  "\<not> steal (detect (ex_check [0] False False)) \<and>
   \<not> relax (detect (ex_check [0] False False)) \<and>
   pulls ex_collab 1 (run ex_cg (ex_check [0] False False)) =
     ([Raised (ReplayUnavailable 0)],
      \<lparr> gen_self = ex_cg, gen_check = ex_check [0] False False, gen_pc = Finished,
        gen_trace = [LogInfo, LoadCheck, Raise (ReplayUnavailable 0)] \<rparr>)"
  by code_simp

section \<open>The library is used by the relax check only\<close>

text \<open>
  C8. When the Check does not enable the relax detector, the trace of the run, after any
  number of pulls, holds no event of the relax check: the library is not connected, not
  queried and not closed, and no investigator is built. When the steal detector is not
  enabled either, the trace holds no event of the steal check.
\<close>

theorem library_untouched_without_relax:
  "\<not> relax (detect c) \<Longrightarrow>
   (\<forall>e \<in> set (gen_trace (snd (pulls E n (run cg c)))). \<not> is_relax e) \<and>
   (\<not> steal (detect c) \<longrightarrow>
      (\<forall>e \<in> set (gen_trace (snd (pulls E n (run cg c)))). \<not> is_steal e))"
  using pulls_no_relax [of c E n cg] pulls_no_steal [of c E n cg] by blast

theorem library_untouched_without_relax_witness:
  "\<not> relax (detect (ex_check [11, 12] True False)) \<and>
   gen_trace (snd (pulls ex_collab 3 (run ex_cg (ex_check [11, 12] True False)))) =
     [LogInfo, LoadCheck, ComparerNew,
      StealYield (ComparisonResult (ex_replay 11) (ex_replay 12)), Return] \<and>
   list_all (\<lambda>e. \<not> is_relax e)
     (gen_trace (snd (pulls ex_collab 3 (run ex_cg (ex_check [11, 12] True False)))))"
proof -
  have h: "\<not> relax (detect (ex_check [11, 12] True False))"
    by (simp add: ex_check_def ex_detect_def)
  have t: "gen_trace (snd (pulls ex_collab 3 (run ex_cg (ex_check [11, 12] True False)))) =
     [LogInfo, LoadCheck, ComparerNew,
      StealYield (ComparisonResult (ex_replay 11) (ex_replay 12)), Return]"
    by code_simp
  show ?thesis
    using library_untouched_without_relax [OF h, of ex_collab 3 ex_cg] h t
    by (simp add: list_all_iff)
qed

section \<open>Results are produced one pull at a time\<close>

lemma yields_append: "yields (xs @ ys) = yields xs @ yields ys"
  by (induction xs rule: yields.induct) simp_all

lemma delivered_append: "delivered (xs @ ys) = delivered xs @ delivered ys"
  by (induction xs rule: delivered.induct) simp_all

lemma length_delivered: "length (delivered os) \<le> length os"
  by (induction os rule: delivered.induct) simp_all

lemma length_pulls: "length (fst (pulls E n g)) = n"
proof (induction n arbitrary: g)
  case 0
  then show ?case by simp
next
  case (Suc n)
  show ?case by (simp only: fst_pulls_Suc) (simp add: Suc.IH)
qed

lemma relax_loop_lazy:
  "relax_loop E cg d its rs = (out, p, evs) \<Longrightarrow>
   yields evs = delivered [out] \<and> evs \<noteq> [] \<and> is_stop (last evs)"
  by (induction E cg d its rs arbitrary: out p evs rule: relax_loop.induct)
     (fastforce split: sum.splits prod.splits if_splits)+

lemma relax_check_lazy:
  assumes "relax_check E cg d l = (out, p, evs)"
  shows "yields evs = delivered [out] \<and> evs \<noteq> [] \<and> is_stop (last evs)"
  using assms
proof (cases rule: relax_check_cases)
  case Off
  then show ?thesis by simp
next
  case (On evs')
  then show ?thesis using relax_loop_lazy [OF On(2)] by (simp add: yields_append)
qed

lemma steal_loop_lazy:
  assumes "steal_loop E cg d l its = (out, p, evs)"
  shows "yields evs = delivered [out] \<and> evs \<noteq> [] \<and> is_stop (last evs)"
  using assms
proof (cases rule: steal_loop_cases)
  case (Item x xs)
  then show ?thesis by simp
next
  case Done
  then show ?thesis using relax_check_lazy by blast
qed

lemma run_start_lazy:
  assumes "run_start E cg c = (out, p, evs)"
  shows "yields evs = delivered [out] \<and> evs \<noteq> [] \<and> is_stop (last evs)"
  using assms
proof (cases rule: run_start_cases)
  case (Fail e)
  then show ?thesis by simp
next
  case (Steal l evs')
  then show ?thesis using steal_loop_lazy [OF Steal(3)] by (simp add: yields_append)
next
  case (NoSteal l evs')
  then show ?thesis using relax_check_lazy [OF NoSteal(3)] by (simp add: yields_append)
qed

lemma resume_lazy:
  assumes "resume E g = (out, p, evs)"
  shows "yields evs = delivered [out] \<and> (evs = [] \<or> is_stop (last evs))"
  using assms
proof (cases rule: resume_cases)
  case Start
  then show ?thesis using run_start_lazy by blast
next
  case (InSteal its l)
  then show ?thesis using steal_loop_lazy by blast
next
  case (InRelax its rs)
  then show ?thesis using relax_loop_lazy by blast
next
  case Finished
  then show ?thesis by simp
qed

lemma gen_next_lazy:
  "yields (gen_trace (snd (gen_next E g))) = yields (gen_trace g) @ delivered [fst (gen_next E g)] \<and>
   ((gen_trace g = [] \<or> is_stop (last (gen_trace g))) \<longrightarrow>
    (gen_trace (snd (gen_next E g)) = [] \<or> is_stop (last (gen_trace (snd (gen_next E g))))))"
proof -
  obtain out p evs where r: "resume E g = (out, p, evs)" by (cases "resume E g") auto
  show ?thesis using resume_lazy [OF r] r
    by (cases "evs = []") (auto simp: gen_next_def yields_append)
qed

lemma pulls_yields:
  "yields (gen_trace (snd (pulls E n g))) = yields (gen_trace g) @ delivered (fst (pulls E n g))"
proof (induction n arbitrary: g)
  case 0
  then show ?case by simp
next
  case (Suc n)
  have "delivered (fst (pulls E (Suc n) g)) =
          delivered [fst (gen_next E g)] @ delivered (fst (pulls E n (snd (gen_next E g))))"
    by (simp only: fst_pulls_Suc) (cases "fst (gen_next E g)", simp_all)
  then show ?case using Suc.IH [of "snd (gen_next E g)"] gen_next_lazy [of E g]
    by (simp only: snd_pulls_Suc) simp
qed

lemma pulls_stops:
  "gen_trace (snd (pulls E n (run cg c))) = [] \<or>
   is_stop (last (gen_trace (snd (pulls E n (run cg c)))))"
proof (rule pulls_invariant [where P = "\<lambda>g::gen. gen_trace g = [] \<or> is_stop (last (gen_trace g))"])
  show "gen_trace (run cg c) = [] \<or> is_stop (last (gen_trace (run cg c)))"
    by (simp add: run_def)
next
  fix h :: gen
  assume "gen_trace h = [] \<or> is_stop (last (gen_trace h))"
  then show "gen_trace (snd (gen_next E h)) = [] \<or> is_stop (last (gen_trace (snd (gen_next E h))))"
    using gen_next_lazy [of E h] by blast
qed

lemma pulls_after_close: "pulls E m (gen_close g) = (replicate m StopIteration, gen_close g)"
  by (rule pulls_Finished) (simp add: gen_close_def)

section \<open>The connection to the temporary library\<close>














section \<open>A failure of the library ends the run\<close>

lemma failure_ends_append:
  "\<forall>ev \<in> set xs. ok_event E ev \<Longrightarrow> failure_ends E (xs @ ys) = failure_ends E ys"
proof (induction xs)
  case Nil
  then show ?case by simp
next
  case (Cons ev xs)
  then show ?case by (cases ev) (auto split: sum.splits)
qed

lemma ok_failure_ends: "\<forall>ev \<in> set xs. ok_event E ev \<Longrightarrow> failure_ends E xs"
  using failure_ends_append [of xs E "[]"] by simp

lemma relax_loop_failure:
  "relax_loop E cg d its rs = (out, p, evs) \<Longrightarrow>
   failure_ends E evs \<and> (p \<noteq> Finished \<longrightarrow> (\<forall>ev \<in> set evs. ok_event E ev))"
  by (induction E cg d its rs arbitrary: out p evs rule: relax_loop.induct)
     (fastforce split: sum.splits prod.splits if_splits)+

lemma relax_check_failure:
  assumes "relax_check E cg d l = (out, p, evs)"
  shows "failure_ends E evs \<and> (p \<noteq> Finished \<longrightarrow> (\<forall>ev \<in> set evs. ok_event E ev))"
  using assms
proof (cases rule: relax_check_cases)
  case Off
  then show ?thesis by simp
next
  case (On evs')
  then show ?thesis using relax_loop_failure [OF On(2)] by auto
qed

lemma steal_loop_failure:
  assumes "steal_loop E cg d l its = (out, p, evs)"
  shows "failure_ends E evs \<and> (p \<noteq> Finished \<longrightarrow> (\<forall>ev \<in> set evs. ok_event E ev))"
  using assms
proof (cases rule: steal_loop_cases)
  case (Item x xs)
  then show ?thesis by simp
next
  case Done
  then show ?thesis using relax_check_failure by blast
qed

lemma run_start_failure:
  assumes "run_start E cg c = (out, p, evs)"
  shows "failure_ends E evs \<and> (p \<noteq> Finished \<longrightarrow> (\<forall>ev \<in> set evs. ok_event E ev))"
  using assms
proof (cases rule: run_start_cases)
  case (Fail e)
  then show ?thesis by simp
next
  case (Steal l evs')
  then show ?thesis using steal_loop_failure [OF Steal(3)] by auto
next
  case (NoSteal l evs')
  then show ?thesis using relax_check_failure [OF NoSteal(3)] by auto
qed

lemma resume_failure:
  assumes "resume E g = (out, p, evs)"
  shows "failure_ends E evs \<and> (p \<noteq> Finished \<longrightarrow> (\<forall>ev \<in> set evs. ok_event E ev))"
  using assms
proof (cases rule: resume_cases)
  case Start
  then show ?thesis using run_start_failure by blast
next
  case (InSteal its l)
  then show ?thesis using steal_loop_failure by blast
next
  case (InRelax its rs)
  then show ?thesis using relax_loop_failure by blast
next
  case Finished
  then show ?thesis by simp
qed

lemma gen_next_failure:
  assumes "failure_ends E (gen_trace g) \<and>
           (gen_pc g \<noteq> Finished \<longrightarrow> (\<forall>ev \<in> set (gen_trace g). ok_event E ev))"
  shows "failure_ends E (gen_trace (snd (gen_next E g))) \<and>
         (gen_pc (snd (gen_next E g)) \<noteq> Finished \<longrightarrow>
            (\<forall>ev \<in> set (gen_trace (snd (gen_next E g))). ok_event E ev))"
proof (cases "gen_pc g = Finished")
  case True
  then show ?thesis using assms by (simp add: gen_next_Finished)
next
  case False
  obtain out p evs where r: "resume E g = (out, p, evs)" by (cases "resume E g") auto
  have ok: "\<forall>ev \<in> set (gen_trace g). ok_event E ev" using assms False by blast
  show ?thesis using resume_failure [OF r] r ok
    by (auto simp: gen_next_def failure_ends_append)
qed

lemma pulls_failure:
  "failure_ends E (gen_trace (snd (pulls E n (run cg c)))) \<and>
   (gen_pc (snd (pulls E n (run cg c))) \<noteq> Finished \<longrightarrow>
      (\<forall>ev \<in> set (gen_trace (snd (pulls E n (run cg c)))). ok_event E ev))"
proof (rule pulls_invariant [where P = "\<lambda>g::gen. failure_ends E (gen_trace g) \<and>
           (gen_pc g \<noteq> Finished \<longrightarrow> (\<forall>ev \<in> set (gen_trace g). ok_event E ev))"])
  show "failure_ends E (gen_trace (run cg c)) \<and>
        (gen_pc (run cg c) \<noteq> Finished \<longrightarrow> (\<forall>ev \<in> set (gen_trace (run cg c)). ok_event E ev))"
    by (simp add: run_def)
qed (rule gen_next_failure)

lemma failed_lookup_step:
  assumes "gen_pc g = InRelax [] (r # rs)" and "lookup_by_id E (map_id r) = Inl e"
  shows "gen_next E g =
           (Raised e, g\<lparr>gen_pc := Finished,
                        gen_trace := gen_trace g @ [LibraryLookup (map_id r), Raise e]\<rparr>)"
  using assms by (simp add: gen_next_def resume_def)

section \<open>One lookup for every replay\<close>

lemma lookups_append: "lookups (xs @ ys) = lookups xs @ lookups ys"
  by (induction xs rule: lookups.induct) simp_all

lemma take_prefix_extend:
  assumes "ys = take (length ys) zs"
  shows "xs @ ys = take (length (xs @ ys)) (xs @ zs)"
proof -
  have "take (length (xs @ ys)) (xs @ zs) = xs @ take (length ys) zs" by simp
  then show ?thesis using assms by metis
qed

lemma relax_loop_lookups:
  "relax_loop E cg d its rs = (out, p, evs) \<Longrightarrow>
   (case p of
      InRelax its' rs' \<Rightarrow> lookups evs @ map map_id rs' = map map_id rs \<and> Return \<notin> set evs
    | Finished \<Rightarrow>
        lookups evs = take (length (lookups evs)) (map map_id rs) \<and>
        (Return \<in> set evs \<longrightarrow> lookups evs = map map_id rs)
    | _ \<Rightarrow> False)"
  by (induction E cg d its rs arbitrary: out p evs rule: relax_loop.induct)
     (fastforce split: sum.splits prod.splits if_splits pc.splits)+

lemma relax_loop_lookups_ok:
  assumes "relax_loop E cg d its rs = (out, p, evs)"
    and "lookups tr @ map map_id rs = map map_id rs0" and "Return \<notin> set tr"
  shows "lookups_ok rs0 rx p (tr @ evs)"
proof (cases p)
  case Start
  then show ?thesis using relax_loop_lookups [OF assms(1)] by simp
next
  case (InSteal xs l)
  then show ?thesis using relax_loop_lookups [OF assms(1)] by simp
next
  case (InRelax its' rs')
  then show ?thesis using relax_loop_lookups [OF assms(1)] assms(2,3)
    by (auto simp: lookups_ok_def lookups_append)
next
  case Finished
  then have t: "lookups evs = take (length (lookups evs)) (map map_id rs)"
    and r: "Return \<in> set evs \<longrightarrow> lookups evs = map map_id rs"
    using relax_loop_lookups [OF assms(1)] by simp_all
  have "lookups (tr @ evs) = take (length (lookups (tr @ evs))) (map map_id rs0)"
    using take_prefix_extend [OF t, of "lookups tr"] assms(2) by (simp only: lookups_append)
  moreover have "Return \<in> set (tr @ evs) \<longrightarrow> lookups (tr @ evs) = map map_id rs0"
    using r assms(2,3) by (auto simp: lookups_append)
  ultimately show ?thesis using Finished by (simp only: lookups_ok_def pc.case) blast
qed

lemma relax_check_lookups_ok:
  assumes "relax_check E cg d l = (out, p, evs)"
    and "all_replays l = rs0" and "lookups tr = []" and "Return \<notin> set tr"
  shows "lookups_ok rs0 (relax d) p (tr @ evs)"
  using assms(1)
proof (cases rule: relax_check_cases)
  case Off
  then show ?thesis using assms(3,4) by (simp add: lookups_ok_def lookups_append)
next
  case (On evs')
  have "lookups_ok rs0 (relax d) p ((tr @ (if library cg = None then [LibraryConnect] else [])) @ evs')"
    by (rule relax_loop_lookups_ok [OF On(2)]) (use assms(2-4) in \<open>auto simp: lookups_append\<close>)
  then show ?thesis using On(3) by simp
qed

lemma steal_loop_lookups_ok:
  assumes "steal_loop E cg d l its = (out, p, evs)"
    and "all_replays l = rs0" and "lookups tr = []" and "Return \<notin> set tr"
  shows "lookups_ok rs0 (relax d) p (tr @ evs)"
  using assms(1)
proof (cases rule: steal_loop_cases)
  case (Item x xs)
  then show ?thesis using assms(2-4) by (simp add: lookups_ok_def lookups_append)
next
  case Done
  then show ?thesis using relax_check_lookups_ok [OF Done(2) assms(2-4)] by simp
qed

lemma run_start_lookups_ok:
  assumes "run_start E cg c = (out, p, evs)"
    and "\<forall>l. load E c = Inr l \<longrightarrow> all_replays l = rs0"
  shows "lookups_ok rs0 (relax (detect c)) p evs"
  using assms(1)
proof (cases rule: run_start_cases)
  case (Fail e)
  then show ?thesis by (simp add: lookups_ok_def)
next
  case (Steal l evs')
  have "all_replays l = rs0" using assms(2) Steal(1) by blast
  then show ?thesis unfolding Steal(4)
    by (intro steal_loop_lookups_ok [OF Steal(3)]) simp_all
next
  case (NoSteal l evs')
  have "all_replays l = rs0" using assms(2) NoSteal(1) by blast
  then show ?thesis unfolding NoSteal(4)
    by (intro relax_check_lookups_ok [OF NoSteal(3)]) simp_all
qed

lemma resume_lookups_ok:
  assumes "lookups_ok rs0 (relax (detect (gen_check g))) (gen_pc g) (gen_trace g)"
    and "\<forall>l. load E (gen_check g) = Inr l \<longrightarrow> all_replays l = rs0"
    and "resume E g = (out, p, evs)"
  shows "lookups_ok rs0 (relax (detect (gen_check g))) p (gen_trace g @ evs)"
  using assms(3)
proof (cases rule: resume_cases)
  case Start
  then show ?thesis using run_start_lookups_ok [OF Start(2) assms(2)] assms(1)
    by (simp add: lookups_ok_def)
next
  case (InSteal its l)
  show ?thesis
    by (rule steal_loop_lookups_ok [OF InSteal(2)])
       (use assms(1) InSteal(1) in \<open>simp_all add: lookups_ok_def\<close>)
next
  case (InRelax its rs)
  show ?thesis
    by (rule relax_loop_lookups_ok [OF InRelax(2)])
       (use assms(1) InRelax(1) in \<open>simp_all add: lookups_ok_def\<close>)
next
  case Finished
  then show ?thesis using assms(1) by simp
qed

lemma pulls_lookups_ok:
  assumes "\<forall>l. load E c = Inr l \<longrightarrow> all_replays l = rs0"
  shows "lookups_ok rs0 (relax (detect c)) (gen_pc (snd (pulls E n (run cg c))))
           (gen_trace (snd (pulls E n (run cg c))))"
proof -
  let ?P = "\<lambda>g::gen. gen_check g = c \<and> lookups_ok rs0 (relax (detect c)) (gen_pc g) (gen_trace g)"
  have "?P (snd (pulls E n (run cg c)))"
  proof (rule pulls_invariant [where P = ?P])
    show "?P (run cg c)" by (simp add: run_def lookups_ok_def)
  next
    fix h :: gen
    assume h: "?P h"
    obtain out p evs where r: "resume E h = (out, p, evs)" by (cases "resume E h") auto
    have "lookups_ok rs0 (relax (detect (gen_check h))) p (gen_trace h @ evs)"
      by (rule resume_lookups_ok [OF _ _ r]) (use h assms in simp_all)
    then show "?P (snd (gen_next E h))" using h r by (simp add: gen_next_def)
  qed
  then show ?thesis by blast
qed

lemma lookups_ok_facts:
  assumes "lookups_ok rs0 rx p tr"
  shows "lookups tr = take (length (lookups tr)) (map map_id rs0) \<and>
         (Return \<in> set tr \<and> rx \<longrightarrow> lookups tr = map map_id rs0)"
proof (cases p)
  case (InRelax its rs)
  then have e: "lookups tr @ map map_id rs = map map_id rs0" and "Return \<notin> set tr"
    using assms by (simp_all add: lookups_ok_def)
  have "take (length (lookups tr)) (lookups tr @ map map_id rs) = lookups tr" by simp
  then show ?thesis using e \<open>Return \<notin> set tr\<close> by simp
qed (use assms in \<open>auto simp: lookups_ok_def\<close>)

text \<open>
  C7 (amended). \<open>run\<close> asks the library once for every replay it reaches, in
  the order of the replay set and with that replay's map identifier, whether or not an
  earlier replay had the same map: the map identifiers looked up so far are always an
  initial part of the map identifiers of the loaded replays, and all of them once the
  body has returned from an enabled relax check.
\<close>

theorem one_lookup_per_replay:
  "load E c = Inr l \<longrightarrow>
   lookups (gen_trace (snd (pulls E n (run cg c)))) =
     take (length (lookups (gen_trace (snd (pulls E n (run cg c))))))
       (map map_id (all_replays l)) \<and>
   (Return \<in> set (gen_trace (snd (pulls E n (run cg c)))) \<and> relax (detect c) \<longrightarrow>
      lookups (gen_trace (snd (pulls E n (run cg c)))) = map map_id (all_replays l))"
proof
  assume l: "load E c = Inr l"
  have "lookups_ok (all_replays l) (relax (detect c)) (gen_pc (snd (pulls E n (run cg c))))
           (gen_trace (snd (pulls E n (run cg c))))"
    by (rule pulls_lookups_ok) (simp add: l)
  then show "lookups (gen_trace (snd (pulls E n (run cg c)))) =
     take (length (lookups (gen_trace (snd (pulls E n (run cg c))))))
       (map map_id (all_replays l)) \<and>
   (Return \<in> set (gen_trace (snd (pulls E n (run cg c)))) \<and> relax (detect c) \<longrightarrow>
      lookups (gen_trace (snd (pulls E n (run cg c)))) = map map_id (all_replays l))"
    by (rule lookups_ok_facts)
qed

theorem one_lookup_per_replay_witness:
  "load ex_collab (ex_check [11, 21, 12] False True) =
     Inr \<lparr> all_replays = [ex_replay 11, ex_replay 21, ex_replay 12], all_replays2 = None \<rparr> \<and>
   relax (detect (ex_check [11, 21, 12] False True)) \<and>
   Return \<in> set (gen_trace (snd (pulls ex_collab 4 (run ex_cg (ex_check [11, 21, 12] False True))))) \<and>
   lookups (gen_trace (snd (pulls ex_collab 4 (run ex_cg (ex_check [11, 21, 12] False True))))) =
     [1, 2, 1] \<and>
   lookups (gen_trace (snd (pulls ex_collab 2 (run ex_cg (ex_check [11, 21, 12] False True))))) =
     take 2 [1, 2, 1]"
proof -
  let ?c = "ex_check [11, 21, 12] False True"
  let ?l = "\<lparr> all_replays = [ex_replay 11, ex_replay 21, ex_replay 12], all_replays2 = None \<rparr>"
  have l: "load ex_collab ?c = Inr ?l" by code_simp
  have x: "relax (detect ?c)" by code_simp
  have r: "Return \<in> set (gen_trace (snd (pulls ex_collab 4 (run ex_cg ?c))))" by code_simp
  have m: "map map_id (all_replays ?l) = [1, 2, 1]" by code_simp
  have k: "length (lookups (gen_trace (snd (pulls ex_collab 2 (run ex_cg ?c))))) = 2" by code_simp
  have a: "lookups (gen_trace (snd (pulls ex_collab 4 (run ex_cg ?c)))) = map map_id (all_replays ?l)"
    using one_lookup_per_replay [of ex_collab ?c ?l 4 ex_cg] l x r by blast
  have b: "lookups (gen_trace (snd (pulls ex_collab 2 (run ex_cg ?c)))) =
     take (length (lookups (gen_trace (snd (pulls ex_collab 2 (run ex_cg ?c))))))
       (map map_id (all_replays ?l))"
    using one_lookup_per_replay [of ex_collab ?c ?l 2 ex_cg] l by blast
  show ?thesis using l x r a [unfolded m] b [unfolded k m] by blast
qed

text \<open>
  Two replays of the same map: the library is asked for map 1 twice in one run.
\<close>

theorem same_map_looked_up_twice:
  "relax (detect (ex_check [11, 12] False True)) \<and>
   map_id (ex_replay 11) = map_id (ex_replay 12) \<and>
   pulls ex_collab 3 (run ex_cg (ex_check [11, 12] False True)) =
     ([Yielded (RelaxResult (ex_replay 11)), Yielded (RelaxResult (ex_replay 12)),
       StopIteration],
      \<lparr> gen_self = ex_cg, gen_check = ex_check [11, 12] False True, gen_pc = Finished,
        gen_trace = [LogInfo, LoadCheck, LibraryConnect,
                     LibraryLookup 1, InvestigatorNew (ex_replay 11),
                     RelaxYield (RelaxResult (ex_replay 11)),
                     LibraryLookup 1, InvestigatorNew (ex_replay 12),
                     RelaxYield (RelaxResult (ex_replay 12)),
                     LibraryClose, Return] \<rparr>) \<and>
   lookups (gen_trace (snd (pulls ex_collab 3 (run ex_cg (ex_check [11, 12] False True))))) =
     [1, 1]"
  by code_simp

section \<open>A Check without replays\<close>

lemma check_load_no_replays:
  assumes "replays c = []" and "replays2 c = None \<or> replays2 c = Some []"
  shows "\<exists>l. check_load m c = Inr l \<and> all_replays l = []"
  using assms by (auto simp: check_load_def)

lemma check_load_primary_empty:
  assumes "replays c = []" and "check_load m c = Inr l"
  shows "all_replays l = []"
  using assms by (auto simp: check_load_def split: option.splits sum.splits)

lemma comparer_compare_empty: "comparer_compare sim th [] rs2 = []"
  by (cases rs2) (simp_all add: comparer_compare_def)

lemma relax_check_empty:
  assumes "all_replays l = []"
  shows "relax_check E cg d l =
     (StopIteration, Finished,
      (if relax d then (if library cg = None then [LibraryConnect, LibraryClose] else []) else [])
        @ [Return])"
  using assms by (simp add: relax_check_def)

lemma run_start_empty:
  assumes "load E c = Inr l" and "all_replays l = []"
    and "compare E (steal_thresh (detect c)) [] (all_replays2 l) = []"
  shows "run_start E cg c =
     (StopIteration, Finished,
      [LogInfo, LoadCheck] @ (if steal (detect c) then [ComparerNew] else []) @
      (if relax (detect c)
       then (if library cg = None then [LibraryConnect, LibraryClose] else []) else []) @
      [Return])"
  using assms by (simp add: run_start_def Let_def relax_check_empty)

lemma pulls_empty:
  assumes "load E c = Inr l" and "all_replays l = []"
    and "compare E (steal_thresh (detect c)) [] (all_replays2 l) = []"
  shows "pulls E (Suc n) (run cg c) =
     (replicate (Suc n) StopIteration,
      (run cg c)\<lparr>gen_pc := Finished,
                 gen_trace :=
                   [LogInfo, LoadCheck] @ (if steal (detect c) then [ComparerNew] else []) @
                   (if relax (detect c)
                    then (if library cg = None then [LibraryConnect, LibraryClose] else [])
                    else []) @
                   [Return]\<rparr>)"
proof -
  have "gen_next E (run cg c) =
     (StopIteration,
      (run cg c)\<lparr>gen_pc := Finished,
                 gen_trace :=
                   [LogInfo, LoadCheck] @ (if steal (detect c) then [ComparerNew] else []) @
                   (if relax (detect c)
                    then (if library cg = None then [LibraryConnect, LibraryClose] else [])
                    else []) @
                   [Return]\<rparr>)"
    using run_start_empty [OF assms, of cg]
    by (simp add: gen_next_def resume_def run_def)
  then show ?thesis by (simp add: pulls_Finished)
qed

lemma first_pull_load_failure:
  assumes "load E c = Inl e"
  shows "pulls E (Suc n) (run cg c) =
     (Raised e # replicate n StopIteration,
      (run cg c)\<lparr>gen_pc := Finished, gen_trace := [LogInfo, LoadCheck, Raise e]\<rparr>)"
proof -
  have "gen_next E (run cg c) =
     (Raised e, (run cg c)\<lparr>gen_pc := Finished, gen_trace := [LogInfo, LoadCheck, Raise e]\<rparr>)"
    using assms by (simp add: gen_next_def resume_def run_def run_start_def)
  then show ?thesis by (simp add: pulls_Finished)
qed

lemma pulls_primary_empty_results:
  assumes "load E = check_load m" and "compare E = comparer_compare sim" and "replays c = []"
  shows "delivered (fst (pulls E n (run cg c))) = []"
proof (cases n)
  case 0
  then show ?thesis by simp
next
  case (Suc k)
  show ?thesis
  proof (cases "load E c")
    case (Inl e)
    then show ?thesis using first_pull_load_failure [of E c e k cg] Suc
      by (simp add: delivered_replicate_stop)
  next
    case (Inr l)
    have e: "all_replays l = []" using check_load_primary_empty [OF assms(3)] Inr assms(1) by simp
    have "compare E (steal_thresh (detect c)) [] (all_replays2 l) = []"
      by (simp add: assms(2) comparer_compare_empty)
    from pulls_empty [OF Inr e this, of k cg] show ?thesis using Suc
      by (simp add: delivered_replicate_stop)
  qed
qed

section \<open>The generator performs the straight-line body, one stop at a time\<close>

lemma step_of_single: "is_stop s \<Longrightarrow> outcome_of s = out \<Longrightarrow> step_of out [s]"
  unfolding step_of_def by (rule exI [of _ "[]"]) simp

lemma step_of_Cons: "step_of out evs \<Longrightarrow> \<not> is_stop e \<Longrightarrow> step_of out (e # evs)"
  unfolding step_of_def
proof (elim exE conjE)
  fix pre s
  assume "\<not> is_stop e" "evs = pre @ [s]" "\<forall>e \<in> set pre. \<not> is_stop e" "is_stop s" "outcome_of s = out"
  then show "\<exists>pre s. e # evs = pre @ [s] \<and> (\<forall>e \<in> set pre. \<not> is_stop e) \<and> is_stop s \<and> outcome_of s = out"
    by (intro exI [of _ "e # pre"] exI [of _ s]) simp
qed

lemma step_of_append:
  "step_of out evs \<Longrightarrow> \<forall>e \<in> set xs. \<not> is_stop e \<Longrightarrow> step_of out (xs @ evs)"
  by (induction xs) (simp_all add: step_of_Cons)

lemma upto_stops_pre:
  "\<forall>e \<in> set pre. \<not> is_stop e \<Longrightarrow> is_stop s \<Longrightarrow>
   upto_stops (Suc n) (pre @ s # es) = pre @ s # upto_stops n es"
  by (induction pre) simp_all

lemma filter_stop_pre:
  "\<forall>e \<in> set pre. \<not> is_stop e \<Longrightarrow> is_stop s \<Longrightarrow>
   filter is_stop (pre @ s # es) = s # filter is_stop es"
  by (induction pre) simp_all

lemma step_of_upto:
  assumes "step_of out evs"
  shows "upto_stops (Suc n) (evs @ es) = evs @ upto_stops n es \<and>
         filter is_stop (evs @ es) = last evs # filter is_stop es \<and>
         filter is_stop evs = [last evs] \<and> outcome_of (last evs) = out"
proof -
  obtain pre s where e: "evs = pre @ [s]" and p: "\<forall>e \<in> set pre. \<not> is_stop e"
    and s: "is_stop s" and o: "outcome_of s = out"
    using assms unfolding step_of_def by blast
  show ?thesis
    using upto_stops_pre [OF p s, of n es] filter_stop_pre [OF p s, of es]
      filter_stop_pre [OF p s, of "[]"] o
    by (simp add: e)
qed

lemma relax_loop_rest:
  "relax_loop E cg (detect c) its rs = (out, p, evs) \<Longrightarrow>
   step_of out evs \<and>
   map RelaxYield its @ relax_body E cg (detect c) rs = evs @ rest E cg c p"
proof (induction E cg "detect c" its rs arbitrary: out p evs rule: relax_loop.induct)
  case (1 E cg x its rs)
  then show ?case by (auto simp: rest_def intro: step_of_single)
next
  case (2 E cg r rs)
  show ?case
  proof (cases "lookup_by_id E (map_id r)")
    case (Inl e)
    then show ?thesis using 2(2)
      by (auto simp: rest_def intro!: step_of_Cons step_of_single)
  next
    case (Inr bm)
    then obtain evs' where
      r: "relax_loop E cg (detect c) (investigate E r bm (ur_thresh (detect c))) rs = (out, p, evs')"
      and e: "evs = LibraryLookup (map_id r) # InvestigatorNew r # evs'"
      using 2(2) by (auto split: prod.splits)
    from 2(1) [OF Inr r] show ?thesis using e Inr
      by (auto intro!: step_of_Cons)
  qed
next
  case (3 E cg)
  then show ?case
    by (auto simp: rest_def intro!: step_of_Cons step_of_single)
qed

lemma relax_check_rest:
  assumes "relax_check E cg (detect c) l = (out, p, evs)"
  shows "step_of out evs \<and> relax_part E cg (detect c) l = evs @ rest E cg c p"
  using assms
proof (cases rule: relax_check_cases)
  case Off
  then show ?thesis by (auto simp: relax_part_def rest_def intro!: step_of_single)
next
  case (On evs')
  from relax_loop_rest [OF On(2)] show ?thesis using On(1,3)
    by (auto simp: relax_part_def intro!: step_of_Cons)
qed

lemma steal_loop_rest:
  assumes "steal_loop E cg (detect c) l its = (out, p, evs)"
  shows "step_of out evs \<and>
         map StealYield its @ relax_part E cg (detect c) l = evs @ rest E cg c p"
  using assms
proof (cases rule: steal_loop_cases)
  case (Item x xs)
  then show ?thesis by (auto simp: rest_def intro!: step_of_single)
next
  case Done
  then show ?thesis using relax_check_rest [OF Done(2)] by simp
qed

lemma run_start_rest:
  assumes "run_start E cg c = (out, p, evs)"
  shows "step_of out evs \<and> run_body E cg c = evs @ rest E cg c p"
  using assms
proof (cases rule: run_start_cases)
  case (Fail e)
  then show ?thesis by (auto simp: run_body_def rest_def intro!: step_of_Cons step_of_single)
next
  case (Steal l evs')
  from steal_loop_rest [OF Steal(3)] show ?thesis using Steal(1,2,4)
    by (auto simp: run_body_def Let_def intro!: step_of_Cons)
next
  case (NoSteal l evs')
  from relax_check_rest [OF NoSteal(3)] show ?thesis using NoSteal(1,2,4)
    by (auto simp: run_body_def Let_def intro!: step_of_Cons)
qed

lemma resume_rest:
  assumes "resume E g = (out, p, evs)" and "gen_pc g \<noteq> Finished"
  shows "step_of out evs \<and>
         rest E (gen_self g) (gen_check g) (gen_pc g) = evs @ rest E (gen_self g) (gen_check g) p"
  using assms(1)
proof (cases rule: resume_cases)
  case Start
  then show ?thesis using run_start_rest [OF Start(2)] by (simp add: rest_def)
next
  case (InSteal its l)
  then show ?thesis using steal_loop_rest [OF InSteal(2)] by (simp add: rest_def)
next
  case (InRelax its rs)
  then show ?thesis using relax_loop_rest [OF InRelax(2)] by (simp add: rest_def)
next
  case Finished
  then show ?thesis using assms(2) by simp
qed

lemma upto_stops_Nil: "upto_stops n [] = []"
  by (cases n) simp_all

lemma pulls_rest:
  "gen_trace (snd (pulls E n g)) =
     gen_trace g @ upto_stops n (rest E (gen_self g) (gen_check g) (gen_pc g)) \<and>
   fst (pulls E n g) =
     handed (upto_stops n (rest E (gen_self g) (gen_check g) (gen_pc g))) @
     replicate (n - length (filter is_stop (rest E (gen_self g) (gen_check g) (gen_pc g))))
       StopIteration"
proof (induction n arbitrary: g)
  case 0
  then show ?case by (simp add: handed_def)
next
  case (Suc n)
  show ?case
  proof (cases "gen_pc g = Finished")
    case True
    then show ?thesis
      by (simp add: pulls_Finished rest_def handed_def del: pulls.simps)
  next
    case False
    obtain out p evs where r: "resume E g = (out, p, evs)" by (cases "resume E g") auto
    let ?g' = "g\<lparr>gen_pc := p, gen_trace := gen_trace g @ evs\<rparr>"
    have n: "gen_next E g = (out, ?g')" using r by (simp add: gen_next_def)
    have s: "step_of out evs"
      and e: "rest E (gen_self g) (gen_check g) (gen_pc g) =
              evs @ rest E (gen_self g) (gen_check g) p"
      using resume_rest [OF r False] by simp_all
    note u = step_of_upto [OF s, of n "rest E (gen_self g) (gen_check g) p"]
    have ih: "gen_trace (snd (pulls E n ?g')) =
        (gen_trace g @ evs) @ upto_stops n (rest E (gen_self g) (gen_check g) p) \<and>
      fst (pulls E n ?g') =
        handed (upto_stops n (rest E (gen_self g) (gen_check g) p)) @
        replicate (n - length (filter is_stop (rest E (gen_self g) (gen_check g) p)))
          StopIteration"
      using Suc.IH [of ?g'] by simp
    have h: "handed (evs @ upto_stops n (rest E (gen_self g) (gen_check g) p)) =
             out # handed (upto_stops n (rest E (gen_self g) (gen_check g) p))"
      using u by (simp add: handed_def)
    show ?thesis
      unfolding e snd_pulls_Suc fst_pulls_Suc n fst_conv snd_conv
      using ih u h by simp
  qed
qed

lemma pulls_run_body:
  "gen_trace (snd (pulls E n (run cg c))) = upto_stops n (run_body E cg c) \<and>
   fst (pulls E n (run cg c)) =
     handed (upto_stops n (run_body E cg c)) @
     replicate (n - length (filter is_stop (run_body E cg c))) StopIteration"
  using pulls_rest [of E n "run cg c"] by (simp add: run_def rest_def)

lemma filter_stop_last: "es \<noteq> [] \<Longrightarrow> is_stop (last es) \<Longrightarrow> filter is_stop es \<noteq> []"
  by (metis filter_empty_conv last_in_set)

lemma upto_stops_all:
  "es = [] \<or> is_stop (last es) \<Longrightarrow> length (filter is_stop es) \<le> n \<Longrightarrow>
   upto_stops n es = es"
proof (induction n es rule: upto_stops.induct)
  case (1 es)
  then show ?case using filter_stop_last [of es] by auto
next
  case (2 n)
  then show ?case by simp
next
  case (3 n e es)
  then show ?case by (cases "es = []") (auto split: if_splits)
qed

lemma filter_stop_StealYield: "filter is_stop (map StealYield xs) = map StealYield xs"
  by (induction xs) simp_all

lemma filter_stop_RelaxYield: "filter is_stop (map RelaxYield xs) = map RelaxYield xs"
  by (induction xs) simp_all

lemma outcome_of_StealYield: "map outcome_of (map StealYield xs) = map Yielded xs"
  by (induction xs) simp_all

lemma outcome_of_RelaxYield: "map outcome_of (map RelaxYield xs) = map Yielded xs"
  by (induction xs) simp_all

text \<open>A run in which the library fails for one replay, as a whole.\<close>

lemma relax_body_prefix:
  "\<forall>q \<in> set rs1. lookup_by_id E (map_id q) = Inr (bmf q) \<Longrightarrow>
   relax_body E cg d (rs1 @ rs) = investigation_events E d bmf rs1 @ relax_body E cg d rs"
  by (induction rs1) (simp_all add: investigation_events_def)

lemma filter_stop_investigation:
  "filter is_stop (investigation_events E d bmf rs) = map RelaxYield (investigated E d bmf rs)"
  by (induction rs)
     (simp_all add: investigation_events_def investigated_def filter_stop_RelaxYield)

lemma run_body_failure:
  assumes "load E c = Inr l" and "relax (detect c)" and "all_replays l = rs1 @ r # rs2"
    and "\<forall>q \<in> set rs1. lookup_by_id E (map_id q) = Inr (bmf q)"
    and "lookup_by_id E (map_id r) = Inl e"
  shows "run_body E cg c =
     LogInfo # LoadCheck #
     (if steal (detect c) then ComparerNew # map StealYield (steal_results E c l) else []) @
     (if library cg = None then [LibraryConnect] else []) @
     investigation_events E (detect c) bmf rs1 @ [LibraryLookup (map_id r), Raise e]"
  using assms relax_body_prefix [OF assms(4), of cg "detect c" "r # rs2"]
  by (simp add: run_body_def relax_part_def steal_results_def Let_def)

lemma failure_run:
  assumes "load E c = Inr l" and "relax (detect c)" and "all_replays l = rs1 @ r # rs2"
    and "\<forall>q \<in> set rs1. lookup_by_id E (map_id q) = Inr (bmf q)"
    and "lookup_by_id E (map_id r) = Inl e"
  shows "fst (pulls E (length (steal_results E c l) +
                      length (investigated E (detect c) bmf rs1) + 1 + m) (run cg c)) =
           map Yielded (steal_results E c l @ investigated E (detect c) bmf rs1) @
           Raised e # replicate m StopIteration \<and>
         gen_trace (snd (pulls E (length (steal_results E c l) +
                      length (investigated E (detect c) bmf rs1) + 1 + m) (run cg c))) =
           LogInfo # LoadCheck #
           (if steal (detect c) then ComparerNew # map StealYield (steal_results E c l)
            else []) @
           (if library cg = None then [LibraryConnect] else []) @
           investigation_events E (detect c) bmf rs1 @ [LibraryLookup (map_id r), Raise e]"
proof -
  let ?S = "steal_results E c l"
  let ?R = "investigated E (detect c) bmf rs1"
  let ?n = "length ?S + length ?R + 1 + m"
  let ?B = "LogInfo # LoadCheck #
     (if steal (detect c) then ComparerNew # map StealYield ?S else []) @
     (if library cg = None then [LibraryConnect] else []) @
     investigation_events E (detect c) bmf rs1 @ [LibraryLookup (map_id r), Raise e]"
  have b: "run_body E cg c = ?B" by (rule run_body_failure [OF assms])
  have s0: "\<not> steal (detect c) \<Longrightarrow> ?S = []" by (simp add: steal_results_def)
  have f: "filter is_stop ?B = map StealYield ?S @ map RelaxYield ?R @ [Raise e]"
    using s0 by (cases "steal (detect c)"; cases "library cg = None")
      (simp_all add: filter_stop_StealYield filter_stop_investigation)
  have len: "length (filter is_stop ?B) = length ?S + length ?R + 1"
    unfolding f by simp
  have "is_stop (last ?B)" by simp
  then have u: "upto_stops ?n ?B = ?B" using len by (intro upto_stops_all) simp_all
  have h: "handed ?B = map Yielded (?S @ ?R) @ [Raised e]"
    unfolding handed_def f by (simp add: outcome_of_StealYield outcome_of_RelaxYield)
  have d: "?n - length (filter is_stop ?B) = m" using len by simp
  show ?thesis
    using pulls_run_body [of E ?n cg c] unfolding b u h d by simp
qed

section \<open>Pull by pull\<close>

text \<open>
  C4. \<open>run\<close> is driven by the consumer's pulls. Calling it performs nothing. After
  \<open>n\<close> pulls the generator has performed exactly the events of the body of
  \<open>run\<close> up to its \<open>n\<close>-th point of handing control back (a yield, an
  exception leaving, the return) and nothing that comes after that point: no lookup, no
  investigator and no result of a later replay. The consumer has received what these
  points hand over, and \<open>StopIteration\<close> for every pull after the end. So the
  results produced are the results received, at most \<open>n\<close>, and the trace ends
  where control was handed back. A consumer that stops pulling leaves the trace as it
  is, and a closed generator does nothing when pulled again.
\<close>

theorem run_is_pull_driven:
  "gen_trace (run cg c) = [] \<and>
   gen_trace (snd (pulls E n (run cg c))) = upto_stops n (run_body E cg c) \<and>
   fst (pulls E n (run cg c)) =
     handed (upto_stops n (run_body E cg c)) @
     replicate (n - length (filter is_stop (run_body E cg c))) StopIteration \<and>
   yields (gen_trace (snd (pulls E n (run cg c)))) = delivered (fst (pulls E n (run cg c))) \<and>
   length (yields (gen_trace (snd (pulls E n (run cg c))))) \<le> n \<and>
   (gen_trace (snd (pulls E n (run cg c))) = [] \<or>
    is_stop (last (gen_trace (snd (pulls E n (run cg c)))))) \<and>
   gen_trace (gen_close g) = gen_trace g \<and>
   pulls E m (gen_close g) = (replicate m StopIteration, gen_close g)"
proof -
  have y: "yields (gen_trace (snd (pulls E n (run cg c)))) = delivered (fst (pulls E n (run cg c)))"
    using pulls_yields [of E n "run cg c"] by (simp add: run_def)
  have "length (delivered (fst (pulls E n (run cg c)))) \<le> n"
    using length_delivered [of "fst (pulls E n (run cg c))"] by (simp add: length_pulls)
  then have l: "length (yields (gen_trace (snd (pulls E n (run cg c))))) \<le> n"
    using y by simp
  have z: "gen_trace (run cg c) = [] \<and> gen_trace (gen_close g) = gen_trace g"
    by (simp add: run_def gen_close_def)
  show ?thesis
    using y l z pulls_stops [of E n cg c] pulls_after_close [of E m g]
      pulls_run_body [of E n cg c]
    by blast
qed

theorem run_is_pull_driven_witness:
  "run_body ex_collab ex_cg (ex_check [11, 21, 31] False True) =
     [LogInfo, LoadCheck, LibraryConnect,
      LibraryLookup 1, InvestigatorNew (ex_replay 11), RelaxYield (RelaxResult (ex_replay 11)),
      LibraryLookup 2, InvestigatorNew (ex_replay 21), RelaxYield (RelaxResult (ex_replay 21)),
      LibraryLookup 3, InvestigatorNew (ex_replay 31), RelaxYield (RelaxResult (ex_replay 31)),
      LibraryClose, Return] \<and>
   gen_trace (snd (pulls ex_collab 1 (run ex_cg (ex_check [11, 21, 31] False True)))) =
     [LogInfo, LoadCheck, LibraryConnect,
      LibraryLookup 1, InvestigatorNew (ex_replay 11),
      RelaxYield (RelaxResult (ex_replay 11))] \<and>
   gen_trace (snd (pulls ex_collab 2 (run ex_cg (ex_check [11, 21, 31] False True)))) =
     [LogInfo, LoadCheck, LibraryConnect,
      LibraryLookup 1, InvestigatorNew (ex_replay 11), RelaxYield (RelaxResult (ex_replay 11)),
      LibraryLookup 2, InvestigatorNew (ex_replay 21),
      RelaxYield (RelaxResult (ex_replay 21))] \<and>
   fst (pulls ex_collab 5 (run ex_cg (ex_check [11, 21, 31] False True))) =
     [Yielded (RelaxResult (ex_replay 11)), Yielded (RelaxResult (ex_replay 21)),
      Yielded (RelaxResult (ex_replay 31)), StopIteration, StopIteration]"
proof -
  let ?c = "ex_check [11, 21, 31] False True"
  let ?B = "[LogInfo, LoadCheck, LibraryConnect,
      LibraryLookup 1, InvestigatorNew (ex_replay 11), RelaxYield (RelaxResult (ex_replay 11)),
      LibraryLookup 2, InvestigatorNew (ex_replay 21), RelaxYield (RelaxResult (ex_replay 21)),
      LibraryLookup 3, InvestigatorNew (ex_replay 31), RelaxYield (RelaxResult (ex_replay 31)),
      LibraryClose, Return]"
  have b: "run_body ex_collab ex_cg ?c = ?B" by code_simp
  have u1: "upto_stops 1 ?B =
     [LogInfo, LoadCheck, LibraryConnect,
      LibraryLookup 1, InvestigatorNew (ex_replay 11),
      RelaxYield (RelaxResult (ex_replay 11))]" by code_simp
  have u2: "upto_stops 2 ?B =
     [LogInfo, LoadCheck, LibraryConnect,
      LibraryLookup 1, InvestigatorNew (ex_replay 11), RelaxYield (RelaxResult (ex_replay 11)),
      LibraryLookup 2, InvestigatorNew (ex_replay 21),
      RelaxYield (RelaxResult (ex_replay 21))]" by code_simp
  have u5: "handed (upto_stops 5 ?B) @ replicate (5 - length (filter is_stop ?B)) StopIteration =
     [Yielded (RelaxResult (ex_replay 11)), Yielded (RelaxResult (ex_replay 21)),
      Yielded (RelaxResult (ex_replay 31)), StopIteration, StopIteration]" by code_simp
  have t1: "gen_trace (snd (pulls ex_collab 1 (run ex_cg ?c))) = upto_stops 1 ?B"
    using run_is_pull_driven [where E = ex_collab and n = 1 and cg = ex_cg and c = ?c]
    unfolding b by blast
  have t2: "gen_trace (snd (pulls ex_collab 2 (run ex_cg ?c))) = upto_stops 2 ?B"
    using run_is_pull_driven [where E = ex_collab and n = 2 and cg = ex_cg and c = ?c]
    unfolding b by blast
  have t5: "fst (pulls ex_collab 5 (run ex_cg ?c)) =
     handed (upto_stops 5 ?B) @ replicate (5 - length (filter is_stop ?B)) StopIteration"
    using run_is_pull_driven [where E = ex_collab and n = 5 and cg = ex_cg and c = ?c]
    unfolding b by blast
  show ?thesis using b t1 [unfolded u1] t2 [unfolded u2] t5 [unfolded u5] by blast
qed

section \<open>A failed lookup ends the whole run\<close>

text \<open>
  C3 (amended). A failure of the library for one replay's map identifier ends the run.
  Take a run with the relax detector whose loaded replays are \<open>rs1\<close>, then
  \<open>r\<close>, then \<open>rs2\<close>, where the library answers the lookups for
  \<open>rs1\<close> and fails the lookup for \<open>r\<close> with \<open>e\<close>. The consumer
  receives the results of the steal check and of investigating \<open>rs1\<close>, in order;
  the next pull raises \<open>e\<close>; every pull after that gives \<open>StopIteration\<close>.
  The run has then performed the lookups, investigators and results for \<open>rs1\<close>
  and the failed lookup for \<open>r\<close>, and nothing for \<open>rs2\<close>. Moreover, in
  every trace of a run a lookup that the library fails is followed by the exception
  leaving \<open>run\<close> and by nothing else; once an exception has left, every later
  pull gives \<open>StopIteration\<close> and changes nothing; and the pull that reaches a
  replay whose lookup fails raises that failure and finishes the generator.
\<close>

theorem library_failure_ends_run:
  "(load E c = Inr l \<and> relax (detect c) \<and> all_replays l = rs1 @ r # rs2 \<and>
    (\<forall>q \<in> set rs1. lookup_by_id E (map_id q) = Inr (bmf q)) \<and>
    lookup_by_id E (map_id r) = Inl e \<longrightarrow>
      fst (pulls E (length (steal_results E c l) +
                    length (investigated E (detect c) bmf rs1) + 1 + m) (run cg c)) =
        map Yielded (steal_results E c l @ investigated E (detect c) bmf rs1) @
        Raised e # replicate m StopIteration \<and>
      gen_trace (snd (pulls E (length (steal_results E c l) +
                    length (investigated E (detect c) bmf rs1) + 1 + m) (run cg c))) =
        LogInfo # LoadCheck #
        (if steal (detect c) then ComparerNew # map StealYield (steal_results E c l)
         else []) @
        (if library cg = None then [LibraryConnect] else []) @
        investigation_events E (detect c) bmf rs1 @ [LibraryLookup (map_id r), Raise e]) \<and>
   failure_ends E (gen_trace (snd (pulls E n (run cg c)))) \<and>
   (Raise e \<in> set (gen_trace (snd (pulls E n (run cg c)))) \<longrightarrow>
      pulls E m (snd (pulls E n (run cg c))) =
        (replicate m StopIteration, snd (pulls E n (run cg c)))) \<and>
   (gen_pc g = InRelax [] (r # rs) \<and> lookup_by_id E (map_id r) = Inl e \<longrightarrow>
      gen_next E g =
        (Raised e, g\<lparr>gen_pc := Finished,
                     gen_trace := gen_trace g @ [LibraryLookup (map_id r), Raise e]\<rparr>))"
proof -
  have "Raise e \<in> set (gen_trace (snd (pulls E n (run cg c)))) \<Longrightarrow>
        gen_pc (snd (pulls E n (run cg c))) = Finished"
    using pulls_failure [of E n cg c] by force
  then have old: "failure_ends E (gen_trace (snd (pulls E n (run cg c)))) \<and>
   (Raise e \<in> set (gen_trace (snd (pulls E n (run cg c)))) \<longrightarrow>
      pulls E m (snd (pulls E n (run cg c))) =
        (replicate m StopIteration, snd (pulls E n (run cg c)))) \<and>
   (gen_pc g = InRelax [] (r # rs) \<and> lookup_by_id E (map_id r) = Inl e \<longrightarrow>
      gen_next E g =
        (Raised e, g\<lparr>gen_pc := Finished,
                     gen_trace := gen_trace g @ [LibraryLookup (map_id r), Raise e]\<rparr>))"
    using pulls_failure [of E n cg c] failed_lookup_step [of g r rs E e] pulls_Finished
    by blast
  show ?thesis
    using old failure_run [of E c l rs1 r rs2 bmf e m cg] by blast
qed

theorem library_failure_ends_run_witness:
  "load ex_collab (ex_check [11, 91, 21] False True) =
     Inr \<lparr> all_replays = [ex_replay 11, ex_replay 91, ex_replay 21], all_replays2 = None \<rparr> \<and>
   relax (detect (ex_check [11, 91, 21] False True)) \<and>
   lookup_by_id ex_collab (map_id (ex_replay 11)) = Inr (ex_beatmap (ex_replay 11)) \<and>
   lookup_by_id ex_collab (map_id (ex_replay 91)) = Inl (UnknownMap 9) \<and>
   fst (pulls ex_collab 5 (run ex_cg (ex_check [11, 91, 21] False True))) =
     [Yielded (RelaxResult (ex_replay 11)), Raised (UnknownMap 9),
      StopIteration, StopIteration, StopIteration] \<and>
   gen_trace (snd (pulls ex_collab 5 (run ex_cg (ex_check [11, 91, 21] False True)))) =
     [LogInfo, LoadCheck, LibraryConnect, LibraryLookup 1, InvestigatorNew (ex_replay 11),
      RelaxYield (RelaxResult (ex_replay 11)), LibraryLookup 9, Raise (UnknownMap 9)] \<and>
   gen_pc (snd (pulls ex_collab 1 (run ex_cg (ex_check [11, 91, 21] False True)))) =
     InRelax [] [ex_replay 91, ex_replay 21] \<and>
   gen_next ex_collab (snd (pulls ex_collab 1 (run ex_cg (ex_check [11, 91, 21] False True)))) =
     (Raised (UnknownMap 9),
      \<lparr> gen_self = ex_cg, gen_check = ex_check [11, 91, 21] False True,
        gen_pc = Finished,
        gen_trace = [LogInfo, LoadCheck, LibraryConnect, LibraryLookup 1,
                     InvestigatorNew (ex_replay 11),
                     RelaxYield (RelaxResult (ex_replay 11)),
                     LibraryLookup 9, Raise (UnknownMap 9)] \<rparr>) \<and>
   Raise (UnknownMap 9) \<in>
     set (gen_trace (snd (pulls ex_collab 2 (run ex_cg (ex_check [11, 91, 21] False True))))) \<and>
   failure_ends ex_collab
     (gen_trace (snd (pulls ex_collab 2 (run ex_cg (ex_check [11, 91, 21] False True))))) \<and>
   pulls ex_collab 3 (snd (pulls ex_collab 2 (run ex_cg (ex_check [11, 91, 21] False True)))) =
     (replicate 3 StopIteration,
      snd (pulls ex_collab 2 (run ex_cg (ex_check [11, 91, 21] False True))))"
proof -
  let ?c = "ex_check [11, 91, 21] False True"
  let ?l = "\<lparr> all_replays = [ex_replay 11, ex_replay 91, ex_replay 21], all_replays2 = None \<rparr>"
  let ?g1 = "snd (pulls ex_collab 1 (run ex_cg ?c))"
  have ld: "load ex_collab ?c = Inr ?l" by code_simp
  have rx: "relax (detect ?c)" by code_simp
  have sp: "all_replays ?l = [ex_replay 11] @ ex_replay 91 # [ex_replay 21]" by simp
  have l11: "lookup_by_id ex_collab (map_id (ex_replay 11)) = Inr (ex_beatmap (ex_replay 11))"
    by code_simp
  have ok: "\<forall>q \<in> set [ex_replay 11]. lookup_by_id ex_collab (map_id q) = Inr (ex_beatmap q)"
    using l11 by simp
  have l: "lookup_by_id ex_collab (map_id (ex_replay 91)) = Inl (UnknownMap 9)"
    by code_simp
  have pc1: "gen_pc ?g1 = InRelax [] [ex_replay 91, ex_replay 21]"
    by code_simp
  have t2: "Raise (UnknownMap 9) \<in> set (gen_trace (snd (pulls ex_collab 2 (run ex_cg ?c))))"
    by code_simp
  note th = library_failure_ends_run
    [where E = ex_collab and c = ?c and l = ?l and ?rs1.0 = "[ex_replay 11]"
       and r = "ex_replay 91" and ?rs2.0 = "[ex_replay 21]" and bmf = ex_beatmap
       and e = "UnknownMap 9" and m = 3 and cg = ex_cg and n = 2 and g = ?g1
       and rs = "[ex_replay 21]"]
  have k: "length (steal_results ex_collab ?c ?l) +
           length (investigated ex_collab (detect ?c) ex_beatmap [ex_replay 11]) + 1 + 3 = 5"
    by code_simp
  have o: "map Yielded (steal_results ex_collab ?c ?l @
                        investigated ex_collab (detect ?c) ex_beatmap [ex_replay 11]) @
           Raised (UnknownMap 9) # replicate 3 StopIteration =
     [Yielded (RelaxResult (ex_replay 11)), Raised (UnknownMap 9),
      StopIteration, StopIteration, StopIteration]"
    by code_simp
  have t: "LogInfo # LoadCheck #
        (if steal (detect ?c) then ComparerNew # map StealYield (steal_results ex_collab ?c ?l)
         else []) @
        (if library ex_cg = None then [LibraryConnect] else []) @
        investigation_events ex_collab (detect ?c) ex_beatmap [ex_replay 11] @
        [LibraryLookup (map_id (ex_replay 91)), Raise (UnknownMap 9)] =
     [LogInfo, LoadCheck, LibraryConnect, LibraryLookup 1, InvestigatorNew (ex_replay 11),
      RelaxYield (RelaxResult (ex_replay 11)), LibraryLookup 9, Raise (UnknownMap 9)]"
    by code_simp
  have w: "fst (pulls ex_collab 5 (run ex_cg ?c)) =
     [Yielded (RelaxResult (ex_replay 11)), Raised (UnknownMap 9),
      StopIteration, StopIteration, StopIteration] \<and>
   gen_trace (snd (pulls ex_collab 5 (run ex_cg ?c))) =
     [LogInfo, LoadCheck, LibraryConnect, LibraryLookup 1, InvestigatorNew (ex_replay 11),
      RelaxYield (RelaxResult (ex_replay 11)), LibraryLookup 9, Raise (UnknownMap 9)]"
    using th ld rx sp ok l unfolding k o t by blast
  have a: "failure_ends ex_collab (gen_trace (snd (pulls ex_collab 2 (run ex_cg ?c))))"
    using th by blast
  have b: "pulls ex_collab 3 (snd (pulls ex_collab 2 (run ex_cg ?c))) =
     (replicate 3 StopIteration, snd (pulls ex_collab 2 (run ex_cg ?c)))"
    using th t2 by blast
  have c: "gen_next ex_collab ?g1 =
        (Raised (UnknownMap 9),
         ?g1\<lparr>gen_pc := Finished,
              gen_trace := gen_trace ?g1 @
                [LibraryLookup (map_id (ex_replay 91)), Raise (UnknownMap 9)]\<rparr>)"
    using th pc1 l by blast
  have r: "?g1\<lparr>gen_pc := Finished,
              gen_trace := gen_trace ?g1 @
                [LibraryLookup (map_id (ex_replay 91)), Raise (UnknownMap 9)]\<rparr> =
      \<lparr> gen_self = ex_cg, gen_check = ?c, gen_pc = Finished,
        gen_trace = [LogInfo, LoadCheck, LibraryConnect, LibraryLookup 1,
                     InvestigatorNew (ex_replay 11),
                     RelaxYield (RelaxResult (ex_replay 11)),
                     LibraryLookup 9, Raise (UnknownMap 9)] \<rparr>"
    by code_simp
  show ?thesis using ld rx l11 l w pc1 t2 a b c [unfolded r] by blast
qed

text \<open>
  Two replays, the library cannot resolve the map of the first and can resolve the map
  of the second: the first pull raises, and the second replay is never looked up or
  investigated and gives neither a result nor a signal.
\<close>

theorem library_failure_drops_later_replays:
  "relax (detect (ex_check [91, 21] False True)) \<and>
   load ex_collab (ex_check [91, 21] False True) =
     Inr \<lparr> all_replays = [ex_replay 91, ex_replay 21], all_replays2 = None \<rparr> \<and>
   lookup_by_id ex_collab (map_id (ex_replay 91)) = Inl (UnknownMap 9) \<and>
   lookup_by_id ex_collab (map_id (ex_replay 21)) = Inr (Beatmap 2) \<and>
   pulls ex_collab 3 (run ex_cg (ex_check [91, 21] False True)) =
     ([Raised (UnknownMap 9), StopIteration, StopIteration],
      \<lparr> gen_self = ex_cg, gen_check = ex_check [91, 21] False True, gen_pc = Finished,
        gen_trace = [LogInfo, LoadCheck, LibraryConnect, LibraryLookup 9,
                     Raise (UnknownMap 9)] \<rparr>)"
  by code_simp

section \<open>A Check with an empty primary replay set\<close>

text \<open>
  C6 (amended). With the Check's load and the comparer as the specification describes
  them, a Check whose primary replay set is empty gives the consumer no result, however
  often it pulls and whatever detectors are enabled. Whether the run raises is decided by
  the load alone: when the load succeeds the first pull and every later one give
  \<open>StopIteration\<close>, and when it fails the first pull raises the loader's error.
  When the Check refers to no replay at all (no second set, or an empty one) the load
  succeeds.
\<close>

theorem no_replays_no_results:
  "load E = check_load m \<and> compare E = comparer_compare sim \<and> replays c = [] \<longrightarrow>
   delivered (fst (pulls E n (run cg c))) = [] \<and>
   pulls E (Suc n) (run cg c) =
     (case load E c of
        Inl e \<Rightarrow>
          (Raised e # replicate n StopIteration,
           (run cg c)\<lparr>gen_pc := Finished, gen_trace := [LogInfo, LoadCheck, Raise e]\<rparr>)
      | Inr l \<Rightarrow>
          (replicate (Suc n) StopIteration,
           (run cg c)\<lparr>gen_pc := Finished,
                      gen_trace :=
                        [LogInfo, LoadCheck] @
                        (if steal (detect c) then [ComparerNew] else []) @
                        (if relax (detect c)
                         then (if library cg = None then [LibraryConnect, LibraryClose] else [])
                         else []) @
                        [Return]\<rparr>)) \<and>
   (replays2 c = None \<or> replays2 c = Some [] \<longrightarrow>
      pulls E (Suc n) (run cg c) =
        (replicate (Suc n) StopIteration,
         (run cg c)\<lparr>gen_pc := Finished,
                    gen_trace :=
                      [LogInfo, LoadCheck] @
                      (if steal (detect c) then [ComparerNew] else []) @
                      (if relax (detect c)
                       then (if library cg = None then [LibraryConnect, LibraryClose] else [])
                       else []) @
                      [Return]\<rparr>))"
proof (intro impI)
  assume a: "load E = check_load m \<and> compare E = comparer_compare sim \<and> replays c = []"
  have d: "delivered (fst (pulls E n (run cg c))) = []"
    using a pulls_primary_empty_results [of E m sim c n cg] by blast
  have p: "pulls E (Suc n) (run cg c) =
     (case load E c of
        Inl e \<Rightarrow>
          (Raised e # replicate n StopIteration,
           (run cg c)\<lparr>gen_pc := Finished, gen_trace := [LogInfo, LoadCheck, Raise e]\<rparr>)
      | Inr l \<Rightarrow>
          (replicate (Suc n) StopIteration,
           (run cg c)\<lparr>gen_pc := Finished,
                      gen_trace :=
                        [LogInfo, LoadCheck] @
                        (if steal (detect c) then [ComparerNew] else []) @
                        (if relax (detect c)
                         then (if library cg = None then [LibraryConnect, LibraryClose] else [])
                         else []) @
                        [Return]\<rparr>))"
  proof (cases "load E c")
    case (Inl e)
    then show ?thesis using first_pull_load_failure [of E c e n cg] by simp
  next
    case (Inr l)
    have e: "all_replays l = []" using check_load_primary_empty [of c m l] Inr a by simp
    have "compare E (steal_thresh (detect c)) [] (all_replays2 l) = []"
      using a by (simp add: comparer_compare_empty)
    from pulls_empty [OF Inr e this, of n cg] show ?thesis using Inr by simp
  qed
  have q: "replays2 c = None \<or> replays2 c = Some [] \<longrightarrow>
      pulls E (Suc n) (run cg c) =
        (replicate (Suc n) StopIteration,
         (run cg c)\<lparr>gen_pc := Finished,
                    gen_trace :=
                      [LogInfo, LoadCheck] @
                      (if steal (detect c) then [ComparerNew] else []) @
                      (if relax (detect c)
                       then (if library cg = None then [LibraryConnect, LibraryClose] else [])
                       else []) @
                      [Return]\<rparr>)"
  proof
    assume b: "replays2 c = None \<or> replays2 c = Some []"
    obtain l where l: "check_load m c = Inr l"
      using check_load_no_replays [OF _ b, of m] a by blast
    then have "load E c = Inr l" using a by simp
    then show "pulls E (Suc n) (run cg c) =
        (replicate (Suc n) StopIteration,
         (run cg c)\<lparr>gen_pc := Finished,
                    gen_trace :=
                      [LogInfo, LoadCheck] @
                      (if steal (detect c) then [ComparerNew] else []) @
                      (if relax (detect c)
                       then (if library cg = None then [LibraryConnect, LibraryClose] else [])
                       else []) @
                      [Return]\<rparr>)"
      using p by simp
  qed
  show "delivered (fst (pulls E n (run cg c))) = [] \<and>
   pulls E (Suc n) (run cg c) =
     (case load E c of
        Inl e \<Rightarrow>
          (Raised e # replicate n StopIteration,
           (run cg c)\<lparr>gen_pc := Finished, gen_trace := [LogInfo, LoadCheck, Raise e]\<rparr>)
      | Inr l \<Rightarrow>
          (replicate (Suc n) StopIteration,
           (run cg c)\<lparr>gen_pc := Finished,
                      gen_trace :=
                        [LogInfo, LoadCheck] @
                        (if steal (detect c) then [ComparerNew] else []) @
                        (if relax (detect c)
                         then (if library cg = None then [LibraryConnect, LibraryClose] else [])
                         else []) @
                        [Return]\<rparr>)) \<and>
   (replays2 c = None \<or> replays2 c = Some [] \<longrightarrow>
      pulls E (Suc n) (run cg c) =
        (replicate (Suc n) StopIteration,
         (run cg c)\<lparr>gen_pc := Finished,
                    gen_trace :=
                      [LogInfo, LoadCheck] @
                      (if steal (detect c) then [ComparerNew] else []) @
                      (if relax (detect c)
                       then (if library cg = None then [LibraryConnect, LibraryClose] else [])
                       else []) @
                      [Return]\<rparr>))"
    using d p q by blast
qed

theorem no_replays_no_results_witness:
  "load ex_collab = check_load ex_materialize \<and>
   compare ex_collab = comparer_compare ex_sim \<and>
   replays (ex_check2 [] [11, 12] True True) = [] \<and>
   load ex_collab (ex_check2 [] [11, 12] True True) =
     Inr \<lparr> all_replays = [], all_replays2 = Some [ex_replay 11, ex_replay 12] \<rparr> \<and>
   delivered (fst (pulls ex_collab 2 (run ex_cg (ex_check2 [] [11, 12] True True)))) = [] \<and>
   pulls ex_collab 2 (run ex_cg (ex_check2 [] [11, 12] True True)) =
     ([StopIteration, StopIteration],
      \<lparr> gen_self = ex_cg, gen_check = ex_check2 [] [11, 12] True True, gen_pc = Finished,
        gen_trace = [LogInfo, LoadCheck, ComparerNew, LibraryConnect, LibraryClose,
                     Return] \<rparr>) \<and>
   replays2 (ex_check [] True True) = None \<and>
   pulls ex_collab 2 (run ex_cg (ex_check [] True True)) =
     ([StopIteration, StopIteration],
      \<lparr> gen_self = ex_cg, gen_check = ex_check [] True True, gen_pc = Finished,
        gen_trace = [LogInfo, LoadCheck, ComparerNew, LibraryConnect, LibraryClose,
                     Return] \<rparr>)"
proof -
  let ?c = "ex_check2 [] [11, 12] True True"
  let ?l = "\<lparr> all_replays = [], all_replays2 = Some [ex_replay 11, ex_replay 12] \<rparr>"
  let ?d = "ex_check [] True True"
  have h1: "load ex_collab = check_load ex_materialize" by (simp add: ex_collab_def)
  have h2: "compare ex_collab = comparer_compare ex_sim" by (simp add: ex_collab_def)
  have h3: "replays ?c = []" by (simp add: ex_check2_def)
  have h3': "replays ?d = []" by (simp add: ex_check_def)
  have h4: "replays2 ?d = None" by (simp add: ex_check_def)
  have ld: "load ex_collab ?c = Inr ?l" by code_simp
  have two: "(2::nat) = Suc 1" by simp
  note th = no_replays_no_results
    [where E = ex_collab and m = ex_materialize and sim = ex_sim and cg = ex_cg]
  have a: "delivered (fst (pulls ex_collab 2 (run ex_cg ?c))) = []"
    using th [where c = ?c and n = 2] h1 h2 h3 by blast
  have b: "pulls ex_collab (Suc 1) (run ex_cg ?c) =
     (case load ex_collab ?c of
        Inl e \<Rightarrow>
          (Raised e # replicate 1 StopIteration,
           (run ex_cg ?c)\<lparr>gen_pc := Finished, gen_trace := [LogInfo, LoadCheck, Raise e]\<rparr>)
      | Inr l \<Rightarrow>
          (replicate (Suc 1) StopIteration,
           (run ex_cg ?c)\<lparr>gen_pc := Finished,
                      gen_trace :=
                        [LogInfo, LoadCheck] @
                        (if steal (detect ?c) then [ComparerNew] else []) @
                        (if relax (detect ?c)
                         then (if library ex_cg = None then [LibraryConnect, LibraryClose] else [])
                         else []) @
                        [Return]\<rparr>))"
    using th [where c = ?c and n = 1] h1 h2 h3 by blast
  have rb: "(replicate (Suc 1) StopIteration,
           (run ex_cg ?c)\<lparr>gen_pc := Finished,
                      gen_trace :=
                        [LogInfo, LoadCheck] @
                        (if steal (detect ?c) then [ComparerNew] else []) @
                        (if relax (detect ?c)
                         then (if library ex_cg = None then [LibraryConnect, LibraryClose] else [])
                         else []) @
                        [Return]\<rparr>) =
     ([StopIteration, StopIteration],
      \<lparr> gen_self = ex_cg, gen_check = ?c, gen_pc = Finished,
        gen_trace = [LogInfo, LoadCheck, ComparerNew, LibraryConnect, LibraryClose,
                     Return] \<rparr>)"
    by code_simp
  have b': "pulls ex_collab 2 (run ex_cg ?c) =
     ([StopIteration, StopIteration],
      \<lparr> gen_self = ex_cg, gen_check = ?c, gen_pc = Finished,
        gen_trace = [LogInfo, LoadCheck, ComparerNew, LibraryConnect, LibraryClose,
                     Return] \<rparr>)"
    using b [unfolded ld sum.case rb, folded two] .
  have e: "pulls ex_collab (Suc 1) (run ex_cg ?d) =
        (replicate (Suc 1) StopIteration,
         (run ex_cg ?d)\<lparr>gen_pc := Finished,
                    gen_trace :=
                      [LogInfo, LoadCheck] @
                      (if steal (detect ?d) then [ComparerNew] else []) @
                      (if relax (detect ?d)
                       then (if library ex_cg = None then [LibraryConnect, LibraryClose] else [])
                       else []) @
                      [Return]\<rparr>)"
    using th [where c = ?d and n = 1] h1 h2 h3' h4 by blast
  have re: "(replicate (Suc 1) StopIteration,
         (run ex_cg ?d)\<lparr>gen_pc := Finished,
                    gen_trace :=
                      [LogInfo, LoadCheck] @
                      (if steal (detect ?d) then [ComparerNew] else []) @
                      (if relax (detect ?d)
                       then (if library ex_cg = None then [LibraryConnect, LibraryClose] else [])
                       else []) @
                      [Return]\<rparr>) =
     ([StopIteration, StopIteration],
      \<lparr> gen_self = ex_cg, gen_check = ?d, gen_pc = Finished,
        gen_trace = [LogInfo, LoadCheck, ComparerNew, LibraryConnect, LibraryClose,
                     Return] \<rparr>)"
    by code_simp
  show ?thesis using h1 h2 h3 ld a b' h4 e [unfolded re, folded two] by blast
qed

text \<open>
  A Check with an empty primary set and a second set that refers to an unavailable
  replay, both detectors enabled: the first pull raises the loader's error.
\<close>

theorem second_set_load_failure:
  "replays (ex_check2 [] [0] True True) = [] \<and>
   replays2 (ex_check2 [] [0] True True) = Some [0] \<and>
   load ex_collab (ex_check2 [] [0] True True) = Inl (ReplayUnavailable 0) \<and>
   pulls ex_collab 2 (run ex_cg (ex_check2 [] [0] True True)) =
     ([Raised (ReplayUnavailable 0), StopIteration],
      \<lparr> gen_self = ex_cg, gen_check = ex_check2 [] [0] True True, gen_pc = Finished,
        gen_trace = [LogInfo, LoadCheck, Raise (ReplayUnavailable 0)] \<rparr>)"
  by code_simp

end
